theory Spec2Isabelle
  imports Complex_Main
begin

section \<open>Work-items, instruction streams and group memory\<close>

text \<open>
  The four kernels of \<^verbatim>\<open>reduce.c\<close> are OpenCL C: every work-item (thread) of a
  dispatch runs the kernel body with its own hardware coordinates. None of the kernels
  branches on a value it has read from memory: the control flow of a work-item depends only
  on its coordinates, on \<^verbatim>\<open>inputLength\<close> and on the sub-group width. A kernel is therefore
  embedded as the function that maps a work-item to the sequence of memory instructions it
  issues, and a second function executes the instruction streams of a whole work-group on
  the group's local memory.

  A \<^verbatim>\<open>uint\<close> is a natural number below \<open>2 ^ 32\<close>; conversions to \<^verbatim>\<open>uint\<close> and
  \<^verbatim>\<open>uint\<close> additions are written out with their wrap-around.
\<close>

definition u32 :: "nat \<Rightarrow> nat" where
  "u32 x = x mod 2 ^ 32"

definition u32_add :: "nat \<Rightarrow> nat \<Rightarrow> nat" where
  "u32_add x y = (x + y) mod 2 ^ 32"

text \<open>The coordinates \<^verbatim>\<open>get_local_id(0)\<close>, \<^verbatim>\<open>get_global_id(0)\<close>,
  \<^verbatim>\<open>get_local_size(0)\<close> and \<^verbatim>\<open>get_group_id(0)\<close> of one work-item.\<close>

record work_item =
  local_id :: nat
  global_id :: nat
  local_size :: nat
  group_id :: nat

text \<open>
  One instruction slot of a work-item:
  \<^item> \<open>Load i j\<close> is \<^verbatim>\<open>localSlice[i] = input[j]\<close>;
  \<^item> \<open>Combine t s\<close> is \<^verbatim>\<open>localSlice[t] += localSlice[s]\<close>;
  \<^item> \<open>Fence\<close> is \<^verbatim>\<open>barrier(CLK_LOCAL_MEM_FENCE)\<close>;
  \<^item> \<open>Store g\<close> is \<^verbatim>\<open>results[g] = localSlice[0]\<close>;
  \<^item> \<open>Idle\<close> stands for a guarded statement whose guard is false.
\<close>

datatype step = Load nat nat | Combine nat nat | Fence | Store nat | Idle

subsection \<open>The kernels, one work-item at a time\<close>

text \<open>\<^verbatim>\<open>accumulateVolatile(sourceIndex, targetIndex, localSlice)\<close>.\<close>

definition accumulateVolatile :: "nat \<Rightarrow> nat \<Rightarrow> step" where
  "accumulateVolatile sourceIndex targetIndex = Combine targetIndex sourceIndex"

text \<open>The \<^verbatim>\<open>while (activeThreadCount > 0)\<close> loop of \<^verbatim>\<open>reduceBarrier\<close>.\<close>

function barrierLoop :: "nat \<Rightarrow> nat \<Rightarrow> nat \<Rightarrow> nat \<Rightarrow> step list" where
  "barrierLoop inputLength i globalIndex activeThreadCount =
     (if activeThreadCount > 0 then
        (if i < activeThreadCount \<and> u32_add globalIndex activeThreadCount < inputLength
         then Combine i (u32_add i activeThreadCount) else Idle)
        # Fence
        # barrierLoop inputLength i globalIndex (activeThreadCount div 2)
      else [])"
  by pat_completeness auto
termination
  by (relation "measure (\<lambda>(n, i, g, a). a)") auto

definition reduceBarrier :: "nat \<Rightarrow> work_item \<Rightarrow> step list" where
  "reduceBarrier inputLength t =
     (let i = u32 (local_id t);
          globalIndex = u32 (global_id t)
      in (if globalIndex < inputLength then Load i globalIndex else Idle)
         # Fence
         # barrierLoop inputLength i globalIndex (u32 (local_size t div 2))
         @ [if i = 0 then Store (group_id t) else Idle])"

text \<open>The unfenced \<^verbatim>\<open>while (activeThreadCount > 0)\<close> loop of \<^verbatim>\<open>reduceSimd\<close>.\<close>

function simdLoop :: "nat \<Rightarrow> nat \<Rightarrow> nat \<Rightarrow> nat \<Rightarrow> step list" where
  "simdLoop inputLength i globalIndex activeThreadCount =
     (if activeThreadCount > 0 then
        (if u32_add globalIndex activeThreadCount < inputLength
         then Combine i (u32_add i activeThreadCount) else Idle)
        # simdLoop inputLength i globalIndex (activeThreadCount div 2)
      else [])"
  by pat_completeness auto
termination
  by (relation "measure (\<lambda>(n, i, g, a). a)") auto

definition reduceSimd :: "nat \<Rightarrow> work_item \<Rightarrow> step list" where
  "reduceSimd inputLength t =
     (let i = u32 (local_id t);
          globalIndex = u32 (global_id t)
      in (if globalIndex < inputLength then Load i globalIndex else Idle)
         # simdLoop inputLength i globalIndex (u32 (local_size t div 2))
         @ [Store (group_id t)])"

text \<open>
  The first loop of \<^verbatim>\<open>reduceHybrid\<close>, \<^verbatim>\<open>while (activeThreadCount > simdWidth)\<close>. It
  returns the instructions issued and the value of \<^verbatim>\<open>activeThreadCount\<close> on exit, with
  which the second loop starts.
\<close>

function hybridFenced :: "nat \<Rightarrow> nat \<Rightarrow> nat \<Rightarrow> nat \<Rightarrow> nat \<Rightarrow> step list \<times> nat" where
  "hybridFenced simdWidth inputLength i globalIndex activeThreadCount =
     (if activeThreadCount > simdWidth then
        (let (rest, exitCount) =
               hybridFenced simdWidth inputLength i globalIndex (activeThreadCount div 2)
         in ((if i < activeThreadCount \<and> u32_add globalIndex activeThreadCount < inputLength
              then Combine i (u32_add i activeThreadCount) else Idle)
             # Fence # rest, exitCount))
      else ([], activeThreadCount))"
  by pat_completeness auto
termination
  by (relation "measure (\<lambda>(w, n, i, g, a). a)") auto

text \<open>The second loop of \<^verbatim>\<open>reduceHybrid\<close>, through \<^verbatim>\<open>accumulateVolatile\<close>.\<close>

function hybridUnfenced :: "nat \<Rightarrow> nat \<Rightarrow> nat \<Rightarrow> nat \<Rightarrow> step list" where
  "hybridUnfenced inputLength i globalIndex activeThreadCount =
     (if activeThreadCount > 0 then
        (if u32_add globalIndex activeThreadCount < inputLength
         then accumulateVolatile (u32_add i activeThreadCount) i else Idle)
        # hybridUnfenced inputLength i globalIndex (activeThreadCount div 2)
      else [])"
  by pat_completeness auto
termination
  by (relation "measure (\<lambda>(n, i, g, a). a)") auto

text \<open>
  \<^verbatim>\<open>reduceHybrid\<close>; \<open>simdWidth\<close> is what \<^verbatim>\<open>get_max_sub_group_size()\<close> returns. A
  work-item with \<^verbatim>\<open>i >= simdWidth\<close> returns after the first loop: its instruction stream
  ends there.
\<close>

definition reduceHybrid :: "nat \<Rightarrow> nat \<Rightarrow> work_item \<Rightarrow> step list" where
  "reduceHybrid simdWidth inputLength t =
     (let i = u32 (local_id t);
          globalIndex = u32 (global_id t);
          (fenced, activeThreadCount) =
             hybridFenced simdWidth inputLength i globalIndex (u32 (local_size t div 2))
      in (if globalIndex < inputLength then Load i globalIndex else Idle)
         # Fence
         # fenced
         @ (if i \<ge> simdWidth then []
            else hybridUnfenced inputLength i globalIndex activeThreadCount
                 @ [if i = 0 then Store (group_id t) else Idle]))"

text \<open>
  \<^verbatim>\<open>getSimdWidth\<close> has a single guarded store into its \<^verbatim>\<open>uint\<close> buffer; it is embedded
  as the effect of one work-item on that buffer.
\<close>

definition getSimdWidth :: "nat \<Rightarrow> work_item \<Rightarrow> nat list \<Rightarrow> nat list" where
  "getSimdWidth max_sub_group_size t simdWidth =
     (if local_id t = 0 then simdWidth[0 := max_sub_group_size] else simdWidth)"

subsection \<open>Executing a work-group\<close>

text \<open>
  A memory cell holds a value or is indeterminate (\<open>Undef\<close>): never written during the
  dispatch, or outside the buffer. Adding an indeterminate cell gives an indeterminate cell,
  so a result \<open>Val v\<close> does not depend on any such read. The element type is any type with
  an addition; the theorems about sums take it to be a commutative monoid (addition of
  doubles modelled exactly).
\<close>

datatype 'a cell = Undef | Val 'a

fun cell_add :: "'a::plus cell \<Rightarrow> 'a cell \<Rightarrow> 'a cell" where
  "cell_add (Val x) (Val y) = Val (x + y)"
| "cell_add _ _ = Undef"

definition rd :: "'a cell list \<Rightarrow> nat \<Rightarrow> 'a cell" where
  "rd m k = (if k < length m then m ! k else Undef)"

definition rd_input :: "'a list \<Rightarrow> nat \<Rightarrow> 'a cell" where
  "rd_input input j = (if j < length input then Val (input ! j) else Undef)"

record 'a memory =
  localSlice :: "'a cell list"
  results :: "'a cell list"

text \<open>
  The work-items of a group execute their instruction streams slot by slot: the \<open>k\<close>-th
  instructions of all work-items form one row, and every instruction of a row reads the
  memory as it was before the row (\<open>old\<close>) and writes into the memory after it. For the
  unfenced loops this is the lockstep execution that \<^verbatim>\<open>reduceSimd\<close> and the second phase
  of \<^verbatim>\<open>reduceHybrid\<close> rely on. Between two barriers every work-item of \<^verbatim>\<open>reduceBarrier\<close>
  issues one instruction, and no instruction of such a row reads a cell that another one
  writes (lemma \<open>barrier_row_race_free\<close>), so the row has the same effect under every
  interleaving.
\<close>

fun exec_step :: "'a::plus list \<Rightarrow> 'a memory \<Rightarrow> step \<Rightarrow> 'a memory \<Rightarrow> 'a memory" where
  "exec_step input old (Load i j) m = m\<lparr>localSlice := (localSlice m)[i := rd_input input j]\<rparr>"
| "exec_step input old (Combine t s) m =
     m\<lparr>localSlice := (localSlice m)[t := cell_add (rd (localSlice old) t) (rd (localSlice old) s)]\<rparr>"
| "exec_step input old Fence m = m"
| "exec_step input old (Store g) m = m\<lparr>results := (results m)[g := rd (localSlice old) 0]\<rparr>"
| "exec_step input old Idle m = m"

definition exec_row :: "'a::plus list \<Rightarrow> step list \<Rightarrow> 'a memory \<Rightarrow> 'a memory" where
  "exec_row input row m = fold (exec_step input m) row m"

text \<open>The next instruction of every work-item; one that has returned idles.\<close>

definition heads :: "step list list \<Rightarrow> step list" where
  "heads trs = map (\<lambda>tr. case tr of [] \<Rightarrow> Idle | x # _ \<Rightarrow> x) trs"

lemma tails_shorter:
  fixes trs :: "step list list"
  shows "\<not> list_all (\<lambda>tr. tr = []) trs \<Longrightarrow>
     sum_list (map (length \<circ> tl) trs) < sum_list (map length trs)"
proof (induction trs)
  case Nil
  then show ?case by simp
next
  case (Cons tr trs)
  have le: "sum_list (map (length \<circ> tl) ys) \<le> sum_list (map length ys)" for ys :: "step list list"
    by (induction ys) auto
  show ?case
  proof (cases "tr = []")
    case True
    with Cons show ?thesis by simp
  next
    case False
    then have "length (tl tr) < length tr" by (cases tr) auto
    moreover have "sum_list (map (length \<circ> tl) (tr # trs)) = length (tl tr) + sum_list (map (length \<circ> tl) trs)"
      by simp
    moreover have "sum_list (map length (tr # trs)) = length tr + sum_list (map length trs)"
      by simp
    ultimately show ?thesis using le [of trs] by linarith
  qed
qed

function run :: "'a::plus list \<Rightarrow> step list list \<Rightarrow> 'a memory \<Rightarrow> 'a memory" where
  "run input trs m =
     (if list_all (\<lambda>tr. tr = []) trs then m
      else run input (map tl trs) (exec_row input (heads trs) m))"
  by pat_completeness auto
termination
  by (relation "measure (\<lambda>(input, trs, m). sum_list (map length trs))")
     (auto simp: tails_shorter)

text \<open>
  The work-items of group \<open>g\<close> in a dispatch with group size \<open>G\<close> (and no global work
  offset): local indices \<open>0\<close> to \<open>G - 1\<close>, global index \<open>g * G + i\<close>.
\<close>

definition work_items :: "nat \<Rightarrow> nat \<Rightarrow> work_item list" where
  "work_items G g =
     map (\<lambda>i. \<lparr>local_id = i, global_id = g * G + i, local_size = G, group_id = g\<rparr>) [0..<G]"

text \<open>
  One group runs a kernel on a fresh local buffer of \<open>G\<close> cells, none of them written
  yet; the groups of a dispatch share only the \<^verbatim>\<open>results\<close> buffer, and each group touches
  only its own slot of it, so the groups are run one after the other.
\<close>

definition run_group ::
  "(work_item \<Rightarrow> step list) \<Rightarrow> 'a::plus list \<Rightarrow> nat \<Rightarrow> 'a cell list \<Rightarrow> nat \<Rightarrow> 'a cell list" where
  "run_group krn input G res g =
     results (run input (map krn (work_items G g)) \<lparr>localSlice = replicate G Undef, results = res\<rparr>)"

definition dispatch ::
  "(work_item \<Rightarrow> step list) \<Rightarrow> 'a::plus list \<Rightarrow> nat \<Rightarrow> nat \<Rightarrow> 'a cell list \<Rightarrow> 'a cell list" where
  "dispatch krn input G numGroups res =
     fold (\<lambda>g r. run_group krn input G r g) [0..<numGroups] res"

text \<open>The probe is launched as one group; its work-items act on the buffer in turn.\<close>

definition probe_dispatch :: "nat \<Rightarrow> nat \<Rightarrow> nat list \<Rightarrow> nat list" where
  "probe_dispatch max_sub_group_size G simdWidth =
     fold (getSimdWidth max_sub_group_size) (work_items G 0) simdWidth"

text \<open>
  A launch the kernels are written for: a non-empty group, all global indices
  representable as \<^verbatim>\<open>uint\<close>, and \<^verbatim>\<open>inputLength\<close> a \<^verbatim>\<open>uint\<close>.
\<close>

definition valid_launch :: "nat \<Rightarrow> nat \<Rightarrow> nat \<Rightarrow> bool" where
  "valid_launch inputLength G numGroups \<longleftrightarrow>
     0 < G \<and> G \<le> 2 ^ 31 \<and> numGroups * G \<le> 2 ^ 32 \<and> inputLength < 2 ^ 32"

section \<open>Auxiliary notions for the proofs\<close>

subsection \<open>Rounds on the local buffer\<close>

text \<open>
  The following functions are not part of the kernels: they describe the effect of one row
  of combine instructions, and of a whole halving loop, directly on the group's local
  buffer, and the lemmas below show that executing the instruction streams has this effect.
  \<open>P i\<close> says whether the work-item with local index \<open>i\<close> takes part (beyond the guard on
  the global index), \<open>b\<close> is the global index of the group's first work-item.
\<close>

definition round_of :: "(nat \<Rightarrow> bool) \<Rightarrow> nat \<Rightarrow> nat \<Rightarrow> nat \<Rightarrow> 'a::plus cell list \<Rightarrow> 'a cell list" where
  "round_of P n b a s =
     map (\<lambda>i. if P i \<and> u32_add (b + i) a < n then cell_add (rd s i) (rd s (u32_add i a)) else s ! i)
       [0..<length s]"

function rounds_until ::
  "nat \<Rightarrow> (nat \<Rightarrow> nat \<Rightarrow> bool) \<Rightarrow> nat \<Rightarrow> nat \<Rightarrow> nat \<Rightarrow> 'a::plus cell list \<Rightarrow> 'a cell list" where
  "rounds_until w P n b a s =
     (if w < a then rounds_until w P n b (a div 2) (round_of (P a) n b a s) else s)"
  by pat_completeness auto
termination
  by (relation "measure (\<lambda>(w, P, n, b, a, s). a)") auto

text \<open>The active count with which the first loop of \<^verbatim>\<open>reduceHybrid\<close> exits.\<close>

function fencedExit :: "nat \<Rightarrow> nat \<Rightarrow> nat" where
  "fencedExit w a = (if w < a then fencedExit w (a div 2) else a)"
  by pat_completeness auto
termination
  by (relation "measure (\<lambda>(w, a). a)") auto

text \<open>The local buffer of the group that starts at global index \<open>b\<close>, after the load.\<close>

definition loaded :: "'a list \<Rightarrow> nat \<Rightarrow> nat \<Rightarrow> nat \<Rightarrow> 'a cell list" where
  "loaded input n b G = map (\<lambda>i. if b + i < n then rd_input input (b + i) else Undef) [0..<G]"

text \<open>The part of the input that group \<open>g\<close> covers: its tile, cut at \<^verbatim>\<open>inputLength\<close>.\<close>

definition tile :: "'a list \<Rightarrow> nat \<Rightarrow> nat \<Rightarrow> nat \<Rightarrow> 'a list" where
  "tile input n G g = take G (drop (g * G) (take n input))"

text \<open>The sum of a list of cells, indeterminate as soon as one of them is.\<close>

definition sum_cells :: "'a::monoid_add cell list \<Rightarrow> 'a cell" where
  "sum_cells cs = foldr cell_add cs (Val 0)"

text \<open>
  The value of a slot after its owner has executed \<open>st\<close>, and the instructions that touch
  only the local slot \<open>i\<close>.
\<close>

definition slot_after :: "'a::plus list \<Rightarrow> 'a cell list \<Rightarrow> step \<Rightarrow> 'a cell \<Rightarrow> 'a cell" where
  "slot_after input old st c =
     (case st of Load t j \<Rightarrow> rd_input input j
               | Combine t s \<Rightarrow> cell_add (rd old t) (rd old s)
               | _ \<Rightarrow> c)"

definition owns :: "nat \<Rightarrow> step \<Rightarrow> bool" where
  "owns i st = (case st of Load t j \<Rightarrow> t = i | Combine t s \<Rightarrow> t = i | Store g \<Rightarrow> False | _ \<Rightarrow> True)"

text \<open>The sum of the elements of \<open>xs\<close> whose position is congruent to \<open>i\<close> modulo \<open>w\<close>.\<close>

definition class_sum :: "'a::comm_monoid_add list \<Rightarrow> nat \<Rightarrow> nat \<Rightarrow> 'a" where
  "class_sum xs w i = (\<Sum>l \<in> {l. l < length xs \<and> l mod w = i}. xs ! l)"

text \<open>The local slots an instruction writes, and those it reads.\<close>

fun writes_of :: "step \<Rightarrow> nat set" where
  "writes_of (Load i j) = {i}"
| "writes_of (Combine t s) = {t}"
| "writes_of _ = {}"

fun reads_of :: "step \<Rightarrow> nat set" where
  "reads_of (Combine t s) = {t, s}"
| "reads_of (Store g) = {0}"
| "reads_of _ = {}"

section \<open>Properties of the instruction streams\<close>

declare barrierLoop.simps [simp del] simdLoop.simps [simp del] hybridFenced.simps [simp del]
  hybridUnfenced.simps [simp del] run.simps [simp del]

lemma u32_id: "x < 2 ^ 32 \<Longrightarrow> u32 x = x"
  by (simp add: u32_def)

lemma barrierLoop_0: "barrierLoop n i g 0 = []"
  by (subst barrierLoop.simps) simp

lemma barrierLoop_pos:
  "0 < a \<Longrightarrow> barrierLoop n i g a =
     (if i < a \<and> u32_add g a < n then Combine i (u32_add i a) else Idle)
     # Fence # barrierLoop n i g (a div 2)"
  by (subst barrierLoop.simps) simp

lemma simdLoop_0: "simdLoop n i g 0 = []"
  by (subst simdLoop.simps) simp

lemma simdLoop_pos:
  "0 < a \<Longrightarrow> simdLoop n i g a =
     (if u32_add g a < n then Combine i (u32_add i a) else Idle) # simdLoop n i g (a div 2)"
  by (subst simdLoop.simps) simp

lemma hybridUnfenced_simdLoop: "hybridUnfenced n i g a = simdLoop n i g a"
proof (induction a rule: less_induct)
  case (less a)
  show ?case
  proof (cases "a = 0")
    case True
    then show ?thesis by (simp add: simdLoop_0 hybridUnfenced.simps [of n i g 0])
  next
    case False
    then have "a div 2 < a" by simp
    from less [OF this] False show ?thesis
      by (subst hybridUnfenced.simps) (simp add: simdLoop_pos accumulateVolatile_def)
  qed
qed

lemma hybridFenced_stop: "a \<le> w \<Longrightarrow> hybridFenced w n i g a = ([], a)"
  by (subst hybridFenced.simps) simp

lemma hybridFenced_go:
  "w < a \<Longrightarrow> hybridFenced w n i g a =
     ((if i < a \<and> u32_add g a < n then Combine i (u32_add i a) else Idle)
      # Fence # fst (hybridFenced w n i g (a div 2)), snd (hybridFenced w n i g (a div 2)))"
  by (subst hybridFenced.simps) (simp add: split_beta)

lemma barrierLoop_steps:
  "x \<in> set (barrierLoop n i g a) \<Longrightarrow> x = Idle \<or> x = Fence \<or> (\<exists>s. x = Combine i s)"
proof (induction a arbitrary: x rule: less_induct)
  case (less a)
  show ?case
  proof (cases "a = 0")
    case True
    with less.prems show ?thesis by (simp add: barrierLoop_0)
  next
    case False
    then have "a div 2 < a" by simp
    from less.IH [OF this] less.prems False show ?thesis
      by (auto simp: barrierLoop_pos split: if_splits)
  qed
qed

lemma simdLoop_steps:
  "x \<in> set (simdLoop n i g a) \<Longrightarrow>
     x = Idle \<or> (\<exists>b. 0 < b \<and> b \<le> a \<and> u32_add g b < n \<and> x = Combine i (u32_add i b))"
proof (induction a arbitrary: x rule: less_induct)
  case (less a)
  show ?case
  proof (cases "a = 0")
    case True
    with less.prems show ?thesis by (simp add: simdLoop_0)
  next
    case False
    then have lt: "a div 2 < a" by simp
    from less.prems False
    consider "x = (if u32_add g a < n then Combine i (u32_add i a) else Idle)"
      | "x \<in> set (simdLoop n i g (a div 2))"
      by (auto simp: simdLoop_pos)
    then show ?thesis
    proof cases
      case 1
      with False show ?thesis by (auto split: if_splits)
    next
      case 2
      from less.IH [OF lt 2] show ?thesis
        by (auto intro: order_trans [OF _ less_imp_le [OF lt]])
    qed
  qed
qed

lemma hybridFenced_steps:
  "x \<in> set (fst (hybridFenced w n i g a)) \<Longrightarrow> x = Idle \<or> x = Fence \<or> (\<exists>s. x = Combine i s)"
proof (induction a arbitrary: x rule: less_induct)
  case (less a)
  show ?case
  proof (cases "w < a")
    case False
    with less.prems show ?thesis by (simp add: hybridFenced_stop)
  next
    case True
    then have "a div 2 < a" by simp
    from less.IH [OF this] less.prems True show ?thesis
      by (auto simp: hybridFenced_go split: if_splits)
  qed
qed

lemma hybridFenced_exit_le: "snd (hybridFenced w n i g a) \<le> w \<and> snd (hybridFenced w n i g a) \<le> a"
proof (induction a rule: less_induct)
  case (less a)
  show ?case
  proof (cases "w < a")
    case False
    then show ?thesis by (simp add: hybridFenced_stop)
  next
    case True
    then have lt: "a div 2 < a" by simp
    from less [OF lt] True lt show ?thesis
      by (simp add: hybridFenced_go)
  qed
qed

lemma hybridFenced_fenced:
  "fst (hybridFenced w n i g a) = pre @ Combine t s # post \<Longrightarrow> \<exists>post'. post = Fence # post'"
proof (induction a arbitrary: pre rule: less_induct)
  case (less a)
  show ?case
  proof (cases "w < a")
    case False
    with less.prems show ?thesis by (simp add: hybridFenced_stop)
  next
    case True
    then have lt: "a div 2 < a" by simp
    let ?c = "if i < a \<and> u32_add g a < n then Combine i (u32_add i a) else Idle"
    from less.prems True
    have eq: "?c # Fence # fst (hybridFenced w n i g (a div 2)) = pre @ Combine t s # post"
      by (simp add: hybridFenced_go)
    show ?thesis
    proof (cases pre)
      case Nil
      with eq show ?thesis by auto
    next
      case (Cons x pre1)
      show ?thesis
      proof (cases pre1)
        case Nil
        with Cons eq show ?thesis by simp
      next
        case (Cons y pre2)
        with \<open>pre = x # pre1\<close> eq
        have "fst (hybridFenced w n i g (a div 2)) = pre2 @ Combine t s # post" by simp
        from less.IH [OF lt this] show ?thesis .
      qed
    qed
  qed
qed

lemma reduceHybrid_unfold:
  "reduceHybrid w n t =
     (if u32 (global_id t) < n then Load (u32 (local_id t)) (u32 (global_id t)) else Idle)
     # Fence
     # fst (hybridFenced w n (u32 (local_id t)) (u32 (global_id t)) (u32 (local_size t div 2)))
     @ (if w \<le> u32 (local_id t) then []
        else simdLoop n (u32 (local_id t)) (u32 (global_id t))
               (snd (hybridFenced w n (u32 (local_id t)) (u32 (global_id t)) (u32 (local_size t div 2))))
             @ [if u32 (local_id t) = 0 then Store (group_id t) else Idle])"
  by (simp add: reduceHybrid_def Let_def split_beta hybridUnfenced_simdLoop)

lemma probe_others:
  "\<forall>t \<in> set ts. local_id t \<noteq> 0 \<Longrightarrow> fold (getSimdWidth w) ts buf = buf"
  by (induction ts) (auto simp: getSimdWidth_def)


lemma barrierLoop_combines:
  "Combine t s \<in> set (barrierLoop n i g a) \<Longrightarrow>
     \<exists>b. 0 < b \<and> b \<le> a \<and> i < b \<and> u32_add g b < n \<and> t = i \<and> s = u32_add i b"
proof (induction a rule: less_induct)
  case (less a)
  show ?case
  proof (cases "a = 0")
    case True
    with less.prems show ?thesis by (simp add: barrierLoop_0)
  next
    case False
    then have lt: "a div 2 < a" by simp
    from less.prems False
    consider "Combine t s = (if i < a \<and> u32_add g a < n then Combine i (u32_add i a) else Idle)"
      | "Combine t s \<in> set (barrierLoop n i g (a div 2))"
      by (auto simp: barrierLoop_pos)
    then show ?thesis
    proof cases
      case 1
      with False show ?thesis by (auto split: if_splits intro!: exI [of _ a])
    next
      case 2
      from less.IH [OF lt 2] lt show ?thesis by (auto intro: order_trans)
    qed
  qed
qed

lemma hybridFenced_combines:
  "Combine t s \<in> set (fst (hybridFenced w n i g a)) \<Longrightarrow>
     \<exists>b. 0 < b \<and> b \<le> a \<and> i < b \<and> u32_add g b < n \<and> t = i \<and> s = u32_add i b"
proof (induction a rule: less_induct)
  case (less a)
  show ?case
  proof (cases "w < a")
    case False
    with less.prems show ?thesis by (simp add: hybridFenced_stop)
  next
    case True
    then have lt: "a div 2 < a" by simp
    from less.prems True
    consider "Combine t s = (if i < a \<and> u32_add g a < n then Combine i (u32_add i a) else Idle)"
      | "Combine t s \<in> set (fst (hybridFenced w n i g (a div 2)))"
      by (auto simp: hybridFenced_go)
    then show ?thesis
    proof cases
      case 1
      with True show ?thesis by (auto split: if_splits intro!: exI [of _ a])
    next
      case 2
      from less.IH [OF lt 2] lt show ?thesis by (auto intro: order_trans)
    qed
  qed
qed

lemma simdLoop_combines:
  "Combine t s \<in> set (simdLoop n i g a) \<Longrightarrow>
     \<exists>b. 0 < b \<and> b \<le> a \<and> u32_add g b < n \<and> t = i \<and> s = u32_add i b"
  by (drule simdLoop_steps) auto

lemma u32_add_id: "x + y < 2 ^ 32 \<Longrightarrow> u32_add x y = x + y"
  by (simp add: u32_add_def)

text \<open>Coordinates of a work-item of a valid launch.\<close>

lemma work_item_coords:
  assumes "t \<in> set (work_items G g)"
  shows "local_id t < G" "global_id t = g * G + local_id t" "local_size t = G" "group_id t = g"
  using assms by (auto simp: work_items_def)

lemma work_item_u32:
  assumes v: "valid_launch n G numGroups" and g: "g < numGroups" and t: "t \<in> set (work_items G g)"
  shows "u32 (local_id t) = local_id t" "u32 (global_id t) = g * G + local_id t"
    "u32 (local_size t div 2) = G div 2" "g * G + G \<le> 2 ^ 32"
proof -
  note c = work_item_coords [OF t]
  from g have "Suc g \<le> numGroups" by simp
  then have "Suc g * G \<le> numGroups * G" by (rule mult_le_mono1)
  with v show top: "g * G + G \<le> 2 ^ 32" by (simp add: valid_launch_def)
  from c(1) top have "g * G + local_id t < 2 ^ 32" "local_id t < 2 ^ 32" "G div 2 < 2 ^ 32"
    by linarith+
  with c show "u32 (local_id t) = local_id t" "u32 (global_id t) = g * G + local_id t"
    "u32 (local_size t div 2) = G div 2"
    by (simp_all add: u32_id)
qed

lemma hybrid_combine_cases:
  assumes "reduceHybrid w n t = pre @ Combine tgt src # post"
  shows "(\<exists>p q. fst (hybridFenced w n (u32 (local_id t)) (u32 (global_id t)) (u32 (local_size t div 2)))
              = p @ Combine tgt src # q \<and> (\<exists>r. post = q @ r))
       \<or> (u32 (local_id t) < w \<and>
           Combine tgt src \<in> set (simdLoop n (u32 (local_id t)) (u32 (global_id t))
               (snd (hybridFenced w n (u32 (local_id t)) (u32 (global_id t)) (u32 (local_size t div 2))))))"
proof -
  let ?F = "fst (hybridFenced w n (u32 (local_id t)) (u32 (global_id t)) (u32 (local_size t div 2)))"
  let ?U = "simdLoop n (u32 (local_id t)) (u32 (global_id t))
               (snd (hybridFenced w n (u32 (local_id t)) (u32 (global_id t)) (u32 (local_size t div 2))))"
  let ?R = "if w \<le> u32 (local_id t) then []
            else ?U @ [if u32 (local_id t) = 0 then Store (group_id t) else Idle]"
  let ?ld = "if u32 (global_id t) < n then Load (u32 (local_id t)) (u32 (global_id t)) else Idle"
  from assms have eq: "?ld # Fence # ?F @ ?R = pre @ Combine tgt src # post"
    by (simp only: reduceHybrid_unfold)
  then obtain pre1 where pre: "pre = ?ld # pre1"
    by (cases pre) (auto split: if_splits)
  with eq have eq1: "Fence # ?F @ ?R = pre1 @ Combine tgt src # post" by simp
  then obtain pre2 where pre1: "pre1 = Fence # pre2"
    by (cases pre1) auto
  with eq1 have "?F @ ?R = pre2 @ Combine tgt src # post" by simp
  then obtain us where
    "(?F = pre2 @ us \<and> us @ ?R = Combine tgt src # post) \<or>
     (?F @ us = pre2 \<and> ?R = us @ Combine tgt src # post)"
    by (auto simp: append_eq_append_conv2)
  then show ?thesis
  proof
    assume a: "?F = pre2 @ us \<and> us @ ?R = Combine tgt src # post"
    show ?thesis
    proof (cases us)
      case Nil
      with a have "Combine tgt src \<in> set ?R" by simp
      then show ?thesis by (auto split: if_splits)
    next
      case (Cons u us')
      with a have "?F = pre2 @ Combine tgt src # us'" "post = us' @ ?R" by auto
      then show ?thesis by blast
    qed
  next
    assume "?F @ us = pre2 \<and> ?R = us @ Combine tgt src # post"
    then have "Combine tgt src \<in> set ?R" by simp
    then show ?thesis by (auto split: if_splits)
  qed
qed

text \<open>Which work-items issue the store into \<^verbatim>\<open>results\<close>.\<close>

lemma store_issued:
  assumes "local_id t < 2 ^ 32"
  shows "(Store g \<in> set (reduceBarrier n t) \<longleftrightarrow> local_id t = 0 \<and> g = group_id t) \<and>
         (Store g \<in> set (reduceHybrid w n t) \<longleftrightarrow> local_id t = 0 \<and> 0 < w \<and> g = group_id t) \<and>
         (Store g \<in> set (reduceSimd n t) \<longleftrightarrow> g = group_id t)"
proof (intro conjI)
  from assms have i: "u32 (local_id t) = local_id t" by (rule u32_id)
  show "Store g \<in> set (reduceBarrier n t) \<longleftrightarrow> local_id t = 0 \<and> g = group_id t"
    using i by (auto simp: reduceBarrier_def Let_def dest: barrierLoop_steps)
  show "Store g \<in> set (reduceHybrid w n t) \<longleftrightarrow> local_id t = 0 \<and> 0 < w \<and> g = group_id t"
    using i by (auto simp: reduceHybrid_unfold dest: hybridFenced_steps simdLoop_steps)
  show "Store g \<in> set (reduceSimd n t) \<longleftrightarrow> g = group_id t"
    by (auto simp: reduceSimd_def Let_def dest: simdLoop_steps)
qed

section \<open>Executing the rows of a group\<close>

declare rounds_until.simps [simp del] fencedExit.simps [simp del]

subsection \<open>Rows\<close>

lemma exec_step_quiet: "x = Idle \<or> x = Fence \<Longrightarrow> exec_step input old x m = m"
  by auto

lemma exec_row_quiet:
  "\<forall>x \<in> set row. x = Idle \<or> x = Fence \<Longrightarrow> exec_row input row m = m"
proof -
  have "\<forall>x \<in> set row. x = Idle \<or> x = Fence \<Longrightarrow> fold (exec_step input old) row m = m" for old
    by (induction row) (auto simp: exec_step_quiet)
  then show "\<forall>x \<in> set row. x = Idle \<or> x = Fence \<Longrightarrow> exec_row input row m = m"
    by (simp add: exec_row_def)
qed

lemma run_done: "list_all (\<lambda>tr. tr = []) trs \<Longrightarrow> run input trs m = m"
  by (subst run.simps) simp

lemma run_unfold: "run input trs m = run input (map tl trs) (exec_row input (heads trs) m)"
proof (cases "list_all (\<lambda>tr. tr = []) trs")
  case False
  then show ?thesis by (subst run.simps) simp
next
  case True
  then have "\<forall>x \<in> set (heads trs). x = Idle \<or> x = Fence"
    by (auto simp: heads_def list_all_iff)
  then have "exec_row input (heads trs) m = m" by (rule exec_row_quiet)
  moreover from True have "list_all (\<lambda>tr. tr = []) (map tl trs)"
    by (auto simp: list_all_iff)
  ultimately show ?thesis using True by (simp add: run_done)
qed

lemma run_step:
  assumes "\<And>t. t \<in> set ts \<Longrightarrow> (case k t of [] \<Rightarrow> Idle | x # _ \<Rightarrow> x) = f t \<and> tl (k t) = r t"
  shows "run input (map k ts) m = run input (map r ts) (exec_row input (map f ts) m)"
proof -
  from assms have h: "heads (map k ts) = map f ts"
    by (simp add: heads_def)
  have "map (\<lambda>t. tl (k t)) ts = map r ts"
    by (rule map_cong) (use assms in auto)
  then have t: "map tl (map k ts) = map r ts"
    by (simp add: comp_def)
  show ?thesis by (subst run_unfold) (simp only: h t)
qed

lemma run_last:
  assumes "\<And>t. t \<in> set ts \<Longrightarrow> k t = [] \<or> k t = [f t]"
  shows "run input (map k ts) m = exec_row input (map (\<lambda>t. if k t = [] then Idle else f t) ts) m"
proof -
  have "(case k t of [] \<Rightarrow> Idle | x # _ \<Rightarrow> x) = (if k t = [] then Idle else f t) \<and> tl (k t) = []"
    if "t \<in> set ts" for t
    using assms [OF that] by auto
  then have "run input (map k ts) m
      = run input (map (\<lambda>t. []) ts) (exec_row input (map (\<lambda>t. if k t = [] then Idle else f t) ts) m)"
    by (rule run_step)
  then show ?thesis by (simp add: run_done list_all_iff)
qed

lemma exec_step_owns:
  "owns i st \<Longrightarrow> i < length (localSlice m) \<Longrightarrow>
     exec_step input old st m =
       m\<lparr>localSlice := (localSlice m)[i := slot_after input (localSlice old) st (localSlice m ! i)]\<rparr>"
  by (cases st) (simp_all add: owns_def slot_after_def)

lemma fold_row_local:
  assumes "\<forall>i<k. owns i (stp i)" and "k \<le> length (localSlice m)"
  shows "fold (exec_step input old) (map stp [0..<k]) m =
           m\<lparr>localSlice :=
               map (\<lambda>i. if i < k then slot_after input (localSlice old) (stp i) (localSlice m ! i)
                         else localSlice m ! i) [0..<length (localSlice m)]\<rparr>"
  using assms
proof (induction k)
  case 0
  then show ?case by (simp add: map_nth)
next
  case (Suc k)
  let ?L = "\<lambda>k. map (\<lambda>i. if i < k then slot_after input (localSlice old) (stp i) (localSlice m ! i)
                         else localSlice m ! i) [0..<length (localSlice m)]"
  from Suc have IH: "fold (exec_step input old) (map stp [0..<k]) m = m\<lparr>localSlice := ?L k\<rparr>"
    by simp
  from Suc.prems have k: "k < length (localSlice m)" and o: "owns k (stp k)" by simp_all
  have upd: "(?L k)[k := slot_after input (localSlice old) (stp k) (?L k ! k)] = ?L (Suc k)"
    using k by (intro nth_equalityI) (auto simp: nth_list_update less_Suc_eq)
  have "fold (exec_step input old) (map stp [0..<Suc k]) m
      = exec_step input old (stp k) (m\<lparr>localSlice := ?L k\<rparr>)"
    by (simp add: IH)
  also have "\<dots> = m\<lparr>localSlice := (?L k)[k := slot_after input (localSlice old) (stp k) (?L k ! k)]\<rparr>"
    using exec_step_owns [OF o, of "m\<lparr>localSlice := ?L k\<rparr>" input old] k by simp
  finally show ?case by (simp only: upd)
qed

lemma exec_row_local:
  assumes "\<forall>i<G. owns i (stp i)" and "length (localSlice m) = G"
  shows "exec_row input (map stp [0..<G]) m =
           m\<lparr>localSlice := map (\<lambda>i. slot_after input (localSlice m) (stp i) (localSlice m ! i)) [0..<G]\<rparr>"
proof -
  have "map (\<lambda>i. if i < G then slot_after input (localSlice m) (stp i) (localSlice m ! i)
                         else localSlice m ! i) [0..<G]
      = map (\<lambda>i. slot_after input (localSlice m) (stp i) (localSlice m ! i)) [0..<G]"
    by (rule map_cong) auto
  with fold_row_local [of G stp m input m] assms show ?thesis
    by (simp add: exec_row_def)
qed

lemma fold_row_store:
  assumes "\<forall>x \<in> set row. x = Idle \<or> x = Store g"
  shows "fold (exec_step input old) row m =
           (if Store g \<in> set row then m\<lparr>results := (results m)[g := rd (localSlice old) 0]\<rparr> else m)"
  using assms by (induction row arbitrary: m) auto

lemma exec_row_store:
  assumes "\<forall>x \<in> set row. x = Idle \<or> x = Store g" and "Store g \<in> set row"
  shows "exec_row input row m = m\<lparr>results := (results m)[g := rd (localSlice m) 0]\<rparr>"
  using fold_row_store [OF assms(1), of input m m] assms(2) by (simp add: exec_row_def)

text \<open>The rows of a group, by local index.\<close>

lemma map_work_items:
  "map f (work_items G g) =
     map (\<lambda>i. f \<lparr>local_id = i, global_id = g * G + i, local_size = G, group_id = g\<rparr>) [0..<G]"
  by (simp add: work_items_def comp_def)

lemma row_cong:
  assumes "\<And>t. t \<in> set (work_items G g) \<Longrightarrow> f t = stp (local_id t)"
  shows "map f (work_items G g) = map stp [0..<G]"
  unfolding map_work_items
  by (rule map_cong) (use assms in \<open>auto simp: work_items_def\<close>)

lemma load_row:
  assumes "\<And>t. t \<in> set (work_items G g) \<Longrightarrow>
              f t = (if g * G + local_id t < n then Load (local_id t) (g * G + local_id t) else Idle)"
  shows "exec_row input (map f (work_items G g)) \<lparr>localSlice = replicate G Undef, results = res\<rparr>
           = \<lparr>localSlice = loaded input n (g * G) G, results = res\<rparr>"
proof -
  let ?stp = "\<lambda>i. if g * G + i < n then Load i (g * G + i) else Idle"
  have row: "map f (work_items G g) = map ?stp [0..<G]"
    by (rule row_cong) (rule assms)
  have "map (\<lambda>i. slot_after input (replicate G Undef) (?stp i) (replicate G Undef ! i)) [0..<G]
      = loaded input n (g * G) G"
    unfolding loaded_def by (rule map_cong) (auto simp: slot_after_def)
  with exec_row_local [of G ?stp "\<lparr>localSlice = replicate G Undef, results = res\<rparr>" input]
  show ?thesis by (simp add: row owns_def)
qed

lemma combine_row:
  assumes "\<And>t. t \<in> set (work_items G g) \<Longrightarrow>
              f t = (if P (local_id t) \<and> u32_add (g * G + local_id t) a < n
                     then Combine (local_id t) (u32_add (local_id t) a) else Idle)"
      and len: "length (localSlice m) = G"
  shows "exec_row input (map f (work_items G g)) m
           = m\<lparr>localSlice := round_of P n (g * G) a (localSlice m)\<rparr>"
proof -
  let ?stp = "\<lambda>i. if P i \<and> u32_add (g * G + i) a < n then Combine i (u32_add i a) else Idle"
  have row: "map f (work_items G g) = map ?stp [0..<G]"
    by (rule row_cong) (rule assms)
  have "map (\<lambda>i. slot_after input (localSlice m) (?stp i) (localSlice m ! i)) [0..<G]
      = round_of P n (g * G) a (localSlice m)"
    unfolding round_of_def len by (rule map_cong) (auto simp: slot_after_def)
  with exec_row_local [of G ?stp m input] len
  show ?thesis by (simp add: row owns_def)
qed

lemma fence_row: "exec_row input (map (\<lambda>t. Fence) ts) m = m"
  by (rule exec_row_quiet) auto

lemma store_row:
  assumes "\<And>t. t \<in> set (work_items G g) \<Longrightarrow> f t = Idle \<or> f t = Store g"
      and "0 < G" and "f \<lparr>local_id = 0, global_id = g * G + 0, local_size = G, group_id = g\<rparr> = Store g"
  shows "exec_row input (map f (work_items G g)) m
           = m\<lparr>results := (results m)[g := rd (localSlice m) 0]\<rparr>"
proof (rule exec_row_store)
  from assms(1) show "\<forall>x \<in> set (map f (work_items G g)). x = Idle \<or> x = Store g" by auto
  from assms(2) have "\<lparr>local_id = 0, global_id = g * G + 0, local_size = G, group_id = g\<rparr>
      \<in> set (work_items G g)"
    by (simp add: work_items_def image_iff) 
  with assms(3) show "Store g \<in> set (map f (work_items G g))" by force
qed

lemma length_round_of [simp]: "length (round_of P n b a s) = length s"
  by (simp add: round_of_def)

lemma length_loaded [simp]: "length (loaded input n b G) = G"
  by (simp add: loaded_def)

lemma rounds_until_stop: "a \<le> w \<Longrightarrow> rounds_until w P n b a s = s"
  by (subst rounds_until.simps) simp

lemma rounds_until_go:
  "w < a \<Longrightarrow> rounds_until w P n b a s = rounds_until w P n b (a div 2) (round_of (P a) n b a s)"
  by (subst rounds_until.simps) simp

lemma length_rounds_until [simp]: "length (rounds_until w P n b a s) = length s"
proof (induction a arbitrary: s rule: less_induct)
  case (less a)
  show ?case
  proof (cases "w < a")
    case True
    then have "a div 2 < a" by simp
    from less [OF this] True show ?thesis by (simp add: rounds_until_go)
  qed (simp add: rounds_until_stop)
qed

section \<open>The loops of a group as rounds\<close>

lemma barrierLoop_hybridFenced: "barrierLoop n i g a = fst (hybridFenced 0 n i g a)"
proof (induction a rule: less_induct)
  case (less a)
  show ?case
  proof (cases "a = 0")
    case True
    then show ?thesis by (simp add: barrierLoop_0 hybridFenced_stop)
  next
    case False
    then have "a div 2 < a" by simp
    from less [OF this] False show ?thesis
      by (simp add: barrierLoop_pos hybridFenced_go)
  qed
qed

lemma hybridFenced_exit: "snd (hybridFenced w n i g a) = fencedExit w a"
proof (induction a rule: less_induct)
  case (less a)
  show ?case
  proof (cases "w < a")
    case False
    then show ?thesis by (simp add: hybridFenced_stop fencedExit.simps [of w a])
  next
    case True
    then have "a div 2 < a" by simp
    from less [OF this] True show ?thesis
      by (simp add: hybridFenced_go fencedExit.simps [of w a])
  qed
qed

lemma fenced_loop_run:
  assumes len: "length (localSlice m) = G"
  shows "run input (map (\<lambda>t. fst (hybridFenced w n (local_id t) (g * G + local_id t) a) @ r t)
                     (work_items G g)) m
       = run input (map r (work_items G g))
           (m\<lparr>localSlice := rounds_until w (\<lambda>a i. i < a) n (g * G) a (localSlice m)\<rparr>)"
  using len
proof (induction a arbitrary: m rule: less_induct)
  case (less a)
  show ?case
  proof (cases "w < a")
    case False
    then show ?thesis by (simp add: hybridFenced_stop rounds_until_stop)
  next
    case True
    then have lt: "a div 2 < a" by simp
    let ?c = "\<lambda>t. if local_id t < a \<and> u32_add (g * G + local_id t) a < n
                   then Combine (local_id t) (u32_add (local_id t) a) else Idle"
    let ?rest = "\<lambda>t. fst (hybridFenced w n (local_id t) (g * G + local_id t) (a div 2)) @ r t"
    let ?m1 = "m\<lparr>localSlice := round_of (\<lambda>i. i < a) n (g * G) a (localSlice m)\<rparr>"
    have "run input (map (\<lambda>t. fst (hybridFenced w n (local_id t) (g * G + local_id t) a) @ r t)
                     (work_items G g)) m
        = run input (map (\<lambda>t. Fence # ?rest t) (work_items G g))
            (exec_row input (map ?c (work_items G g)) m)"
      using True by (intro run_step) (simp add: hybridFenced_go)
    also have "exec_row input (map ?c (work_items G g)) m = ?m1"
      by (rule combine_row) (simp_all add: less.prems)
    also have "run input (map (\<lambda>t. Fence # ?rest t) (work_items G g)) ?m1
        = run input (map ?rest (work_items G g)) (exec_row input (map (\<lambda>t. Fence) (work_items G g)) ?m1)"
      by (intro run_step) simp
    also have "\<dots> = run input (map ?rest (work_items G g)) ?m1"
      by (simp only: fence_row)
    also have "\<dots> = run input (map r (work_items G g))
           (?m1\<lparr>localSlice := rounds_until w (\<lambda>a i. i < a) n (g * G) (a div 2) (localSlice ?m1)\<rparr>)"
      by (rule less.IH [OF lt]) (simp add: less.prems)
    finally show ?thesis using True by (simp add: rounds_until_go)
  qed
qed

lemma unfenced_loop_run:
  assumes len: "length (localSlice m) = G"
  shows "run input (map (\<lambda>t. if q (local_id t) then []
                              else simdLoop n (local_id t) (g * G + local_id t) a @ r t)
                     (work_items G g)) m
       = run input (map (\<lambda>t. if q (local_id t) then [] else r t) (work_items G g))
           (m\<lparr>localSlice := rounds_until 0 (\<lambda>a i. \<not> q i) n (g * G) a (localSlice m)\<rparr>)"
  using len
proof (induction a arbitrary: m rule: less_induct)
  case (less a)
  show ?case
  proof (cases "0 < a")
    case False
    then have a0: "a = 0" by simp
    show ?thesis unfolding a0 by (simp add: simdLoop_0 rounds_until_stop cong: if_cong)
  next
    case True
    then have lt: "a div 2 < a" by simp
    let ?c = "\<lambda>t. if \<not> q (local_id t) \<and> u32_add (g * G + local_id t) a < n
                   then Combine (local_id t) (u32_add (local_id t) a) else Idle"
    let ?rest = "\<lambda>t. if q (local_id t) then []
                      else simdLoop n (local_id t) (g * G + local_id t) (a div 2) @ r t"
    let ?m1 = "m\<lparr>localSlice := round_of (\<lambda>i. \<not> q i) n (g * G) a (localSlice m)\<rparr>"
    have "run input (map (\<lambda>t. if q (local_id t) then []
                              else simdLoop n (local_id t) (g * G + local_id t) a @ r t)
                     (work_items G g)) m
        = run input (map ?rest (work_items G g)) (exec_row input (map ?c (work_items G g)) m)"
      using True by (intro run_step) (simp add: simdLoop_pos)
    also have "exec_row input (map ?c (work_items G g)) m = ?m1"
      by (rule combine_row) (simp_all add: less.prems)
    also have "run input (map ?rest (work_items G g)) ?m1
        = run input (map (\<lambda>t. if q (local_id t) then [] else r t) (work_items G g))
           (?m1\<lparr>localSlice := rounds_until 0 (\<lambda>a i. \<not> q i) n (g * G) (a div 2) (localSlice ?m1)\<rparr>)"
      by (rule less.IH [OF lt]) (simp add: less.prems)
    finally show ?thesis using True by (simp add: rounds_until_go)
  qed
qed

text \<open>What one group leaves in its slot of \<^verbatim>\<open>results\<close>, for each of the three kernels.\<close>

lemma run_group_reduceBarrier:
  assumes v: "valid_launch n G numGroups" and g: "g < numGroups"
  shows "run_group (reduceBarrier n) input G res g =
           res[g := rd (rounds_until 0 (\<lambda>a i. i < a) n (g * G) (G div 2) (loaded input n (g * G) G)) 0]"
proof -
  let ?items = "work_items G g"
  let ?ld = "\<lambda>t. if g * G + local_id t < n then Load (local_id t) (g * G + local_id t) else Idle"
  let ?loop = "\<lambda>t. fst (hybridFenced 0 n (local_id t) (g * G + local_id t) (G div 2))"
  let ?st = "\<lambda>t. if local_id t = 0 then Store g else Idle"
  let ?m0 = "\<lparr>localSlice = replicate G Undef, results = res\<rparr>"
  let ?m1 = "\<lparr>localSlice = loaded input n (g * G) G, results = res\<rparr>"
  let ?m2 = "?m1\<lparr>localSlice := rounds_until 0 (\<lambda>a i. i < a) n (g * G) (G div 2) (localSlice ?m1)\<rparr>"
  from v have G: "0 < G" by (simp add: valid_launch_def)
  have k: "reduceBarrier n t = ?ld t # Fence # ?loop t @ [?st t]" if "t \<in> set ?items" for t
    using work_item_u32 [OF v g that] work_item_coords [OF that]
    by (simp add: reduceBarrier_def Let_def barrierLoop_hybridFenced)
  have "run input (map (reduceBarrier n) ?items) ?m0
      = run input (map (\<lambda>t. Fence # ?loop t @ [?st t]) ?items) (exec_row input (map ?ld ?items) ?m0)"
    by (intro run_step) (simp add: k)
  also have "exec_row input (map ?ld ?items) ?m0 = ?m1"
    by (rule load_row) simp
  also have "run input (map (\<lambda>t. Fence # ?loop t @ [?st t]) ?items) ?m1
      = run input (map (\<lambda>t. ?loop t @ [?st t]) ?items) (exec_row input (map (\<lambda>t. Fence) ?items) ?m1)"
    by (intro run_step) simp
  also have "\<dots> = run input (map (\<lambda>t. ?loop t @ [?st t]) ?items) ?m1"
    by (simp only: fence_row)
  also have "\<dots> = run input (map (\<lambda>t. [?st t]) ?items) ?m2"
    by (rule fenced_loop_run) simp
  also have "\<dots> = exec_row input (map (\<lambda>t. if [?st t] = [] then Idle else ?st t) ?items) ?m2"
    by (rule run_last) simp
  also have "\<dots> = ?m2\<lparr>results := (results ?m2)[g := rd (localSlice ?m2) 0]\<rparr>"
    by (rule store_row) (use G in auto)
  finally show ?thesis by (simp add: run_group_def)
qed

lemma run_group_reduceSimd:
  assumes v: "valid_launch n G numGroups" and g: "g < numGroups"
  shows "run_group (reduceSimd n) input G res g =
           res[g := rd (rounds_until 0 (\<lambda>a i. True) n (g * G) (G div 2) (loaded input n (g * G) G)) 0]"
proof -
  let ?items = "work_items G g"
  let ?ld = "\<lambda>t. if g * G + local_id t < n then Load (local_id t) (g * G + local_id t) else Idle"
  let ?loop = "\<lambda>t. simdLoop n (local_id t) (g * G + local_id t) (G div 2)"
  let ?st = "\<lambda>t::work_item. Store g"
  let ?m0 = "\<lparr>localSlice = replicate G Undef, results = res\<rparr>"
  let ?m1 = "\<lparr>localSlice = loaded input n (g * G) G, results = res\<rparr>"
  let ?m2 = "?m1\<lparr>localSlice := rounds_until 0 (\<lambda>a i. True) n (g * G) (G div 2) (localSlice ?m1)\<rparr>"
  from v have G: "0 < G" by (simp add: valid_launch_def)
  have k: "reduceSimd n t = ?ld t # ?loop t @ [?st t]" if "t \<in> set ?items" for t
    using work_item_u32 [OF v g that] work_item_coords [OF that]
    by (simp add: reduceSimd_def Let_def)
  have "run input (map (reduceSimd n) ?items) ?m0
      = run input (map (\<lambda>t. ?loop t @ [?st t]) ?items) (exec_row input (map ?ld ?items) ?m0)"
    by (intro run_step) (simp add: k)
  also have "exec_row input (map ?ld ?items) ?m0 = ?m1"
    by (rule load_row) simp
  also have "run input (map (\<lambda>t. ?loop t @ [?st t]) ?items) ?m1
      = run input (map (\<lambda>t. [?st t]) ?items) ?m2"
    using unfenced_loop_run [of ?m1 G input "\<lambda>i. False" n g "G div 2" "\<lambda>t. [?st t]"] by simp
  also have "\<dots> = exec_row input (map (\<lambda>t. if [?st t] = [] then Idle else ?st t) ?items) ?m2"
    by (rule run_last) simp
  also have "\<dots> = ?m2\<lparr>results := (results ?m2)[g := rd (localSlice ?m2) 0]\<rparr>"
    by (rule store_row) (use G in auto)
  finally show ?thesis by (simp add: run_group_def)
qed

lemma run_group_reduceHybrid:
  assumes v: "valid_launch n G numGroups" and g: "g < numGroups" and w: "0 < w"
  shows "run_group (reduceHybrid w n) input G res g =
           res[g := rd (rounds_until 0 (\<lambda>a i. i < w) n (g * G) (fencedExit w (G div 2))
                         (rounds_until w (\<lambda>a i. i < a) n (g * G) (G div 2) (loaded input n (g * G) G))) 0]"
proof -
  let ?items = "work_items G g"
  let ?ld = "\<lambda>t. if g * G + local_id t < n then Load (local_id t) (g * G + local_id t) else Idle"
  let ?F = "\<lambda>t. fst (hybridFenced w n (local_id t) (g * G + local_id t) (G div 2))"
  let ?U = "\<lambda>t. simdLoop n (local_id t) (g * G + local_id t) (fencedExit w (G div 2))"
  let ?st = "\<lambda>t. if local_id t = 0 then Store g else Idle"
  let ?R = "\<lambda>t. if w \<le> local_id t then [] else ?U t @ [?st t]"
  let ?m0 = "\<lparr>localSlice = replicate G Undef, results = res\<rparr>"
  let ?m1 = "\<lparr>localSlice = loaded input n (g * G) G, results = res\<rparr>"
  let ?m2 = "?m1\<lparr>localSlice := rounds_until w (\<lambda>a i. i < a) n (g * G) (G div 2) (localSlice ?m1)\<rparr>"
  let ?m3 = "?m2\<lparr>localSlice := rounds_until 0 (\<lambda>a i. \<not> w \<le> i) n (g * G) (fencedExit w (G div 2))
                 (localSlice ?m2)\<rparr>"
  from v have G: "0 < G" by (simp add: valid_launch_def)
  have k: "reduceHybrid w n t = ?ld t # Fence # ?F t @ ?R t" if "t \<in> set ?items" for t
    using work_item_u32 [OF v g that] work_item_coords [OF that]
    by (simp add: reduceHybrid_unfold hybridFenced_exit)
  have "run input (map (reduceHybrid w n) ?items) ?m0
      = run input (map (\<lambda>t. Fence # ?F t @ ?R t) ?items) (exec_row input (map ?ld ?items) ?m0)"
    by (intro run_step) (simp add: k)
  also have "exec_row input (map ?ld ?items) ?m0 = ?m1"
    by (rule load_row) simp
  also have "run input (map (\<lambda>t. Fence # ?F t @ ?R t) ?items) ?m1
      = run input (map (\<lambda>t. ?F t @ ?R t) ?items) (exec_row input (map (\<lambda>t. Fence) ?items) ?m1)"
    by (intro run_step) simp
  also have "\<dots> = run input (map (\<lambda>t. ?F t @ ?R t) ?items) ?m1"
    by (simp only: fence_row)
  also have "\<dots> = run input (map ?R ?items) ?m2"
    by (rule fenced_loop_run) simp
  also have "\<dots> = run input (map (\<lambda>t. if w \<le> local_id t then [] else [?st t]) ?items) ?m3"
    by (rule unfenced_loop_run) simp
  also have "\<dots> = exec_row input
        (map (\<lambda>t. if (if w \<le> local_id t then [] else [?st t]) = [] then Idle else ?st t) ?items) ?m3"
    by (rule run_last) simp
  also have "\<dots> = ?m3\<lparr>results := (results ?m3)[g := rd (localSlice ?m3) 0]\<rparr>"
    by (rule store_row) (use G w in auto)
  finally show ?thesis by (simp add: run_group_def not_le)
qed

section \<open>The halving loops agree on slot 0\<close>

lemma rd_round_of:
  "rd (round_of P n b a s) i =
     (if i < length s then
        (if P i \<and> u32_add (b + i) a < n then cell_add (rd s i) (rd s (u32_add i a)) else rd s i)
      else Undef)"
  by (simp add: rd_def round_of_def)

lemma u32_add_le: "u32_add x y \<le> x + y"
  by (simp add: u32_add_def)

text \<open>
  Two halving loops that let every work-item with local index below the active count take
  part leave the same value in slot 0, whatever the other work-items do.
\<close>

lemma rounds_agree:
  assumes "\<And>a' i. 0 < a' \<Longrightarrow> a' \<le> a \<Longrightarrow> i < a' \<Longrightarrow> P a' i \<and> P' a' i"
      and "length s = length s'"
      and "\<And>i. i < 2 * a \<or> i = 0 \<Longrightarrow> rd s i = rd s' i"
  shows "rd (rounds_until 0 P n b a s) 0 = rd (rounds_until 0 P' n b a s') 0"
  using assms
proof (induction a arbitrary: s s' rule: less_induct)
  case (less a)
  show ?case
  proof (cases "0 < a")
    case False
    with less.prems(3) [of 0] show ?thesis by (simp add: rounds_until_stop)
  next
    case True
    then have lt: "a div 2 < a" by simp
    let ?s1 = "round_of (P a) n b a s" and ?s1' = "round_of (P' a) n b a s'"
    have agree1: "rd ?s1 i = rd ?s1' i" if i: "i < 2 * (a div 2) \<or> i = 0" for i
    proof -
      from i True have ia: "i < a" by auto
      with less.prems(1) [of a i] True have P: "P a i" "P' a i" by simp_all
      from ia have "rd s i = rd s' i" by (intro less.prems(3)) simp
      moreover have "u32_add i a < 2 * a" using u32_add_le [of i a] ia by simp
      then have "rd s (u32_add i a) = rd s' (u32_add i a)" by (intro less.prems(3)) simp
      ultimately show ?thesis using P less.prems(2) by (simp add: rd_round_of)
    qed
    have "rd (rounds_until 0 P n b (a div 2) ?s1) 0 = rd (rounds_until 0 P' n b (a div 2) ?s1') 0"
    proof (rule less.IH [OF lt])
      fix a' i assume "0 < a'" "a' \<le> a div 2" "i < a'"
      with less.prems(1) [of a' i] lt show "P a' i \<and> P' a' i" by simp
    next
      show "length ?s1 = length ?s1'" using less.prems(2) by simp
    next
      fix i assume "i < 2 * (a div 2) \<or> i = 0"
      then show "rd ?s1 i = rd ?s1' i" by (rule agree1)
    qed
    with True show ?thesis by (simp add: rounds_until_go)
  qed
qed

lemma rounds_until_cong:
  assumes "\<And>a'. w < a' \<Longrightarrow> a' \<le> a \<Longrightarrow> P a' = P' a'"
  shows "rounds_until w P n b a s = rounds_until w P' n b a s"
  using assms
proof (induction a arbitrary: s rule: less_induct)
  case (less a)
  show ?case
  proof (cases "w < a")
    case False
    then show ?thesis by (simp add: rounds_until_stop)
  next
    case True
    then have lt: "a div 2 < a" by simp
    from less.prems [of a] True have Pa: "P a = P' a" by simp
    have "rounds_until w P n b (a div 2) (round_of (P' a) n b a s)
        = rounds_until w P' n b (a div 2) (round_of (P' a) n b a s)"
      by (rule less.IH [OF lt]) (use less.prems lt in auto)
    with True Pa show ?thesis by (simp add: rounds_until_go)
  qed
qed

lemma fencedExit_le: "fencedExit w a \<le> w"
proof (induction a rule: less_induct)
  case (less a)
  show ?case
  proof (cases "w < a")
    case True
    then have "a div 2 < a" by simp
    from less [OF this] True show ?thesis by (simp add: fencedExit.simps [of w a])
  qed (simp add: fencedExit.simps [of w a])
qed

text \<open>The two loops of \<^verbatim>\<open>reduceHybrid\<close> make one halving loop.\<close>

lemma rounds_hybrid:
  "rounds_until 0 P' n b (fencedExit w a) (rounds_until w P n b a s)
     = rounds_until 0 (\<lambda>a i. if w < a then P a i else P' a i) n b a s"
proof (induction a arbitrary: s rule: less_induct)
  case (less a)
  let ?PH = "\<lambda>a i. if w < a then P a i else P' a i"
  show ?case
  proof (cases "w < a")
    case False
    then have "rounds_until 0 ?PH n b a s = rounds_until 0 P' n b a s"
      by (intro rounds_until_cong) auto
    with False show ?thesis
      by (simp add: rounds_until_stop fencedExit.simps [of w a])
  next
    case True
    then have lt: "a div 2 < a" and a0: "0 < a" by simp_all
    from True have "?PH a = P a" by auto
    with less [OF lt, of "round_of (P a) n b a s"] True a0 show ?thesis
      by (simp add: rounds_until_go fencedExit.simps [of w a])
  qed
qed

text \<open>Hence the three kernels leave the same value in the group's slot.\<close>

lemma run_group_simd_eq_barrier:
  assumes v: "valid_launch n G numGroups" and g: "g < numGroups"
  shows "run_group (reduceSimd n) input G res g = run_group (reduceBarrier n) input G res g"
proof -
  have "rd (rounds_until 0 (\<lambda>a i. True) n (g * G) (G div 2) (loaded input n (g * G) G)) 0
      = rd (rounds_until 0 (\<lambda>a i. i < a) n (g * G) (G div 2) (loaded input n (g * G) G)) 0"
    by (rule rounds_agree) simp_all
  then show ?thesis
    by (simp add: run_group_reduceSimd [OF v g] run_group_reduceBarrier [OF v g])
qed

lemma run_group_hybrid_eq_barrier:
  assumes v: "valid_launch n G numGroups" and g: "g < numGroups" and w: "0 < w"
  shows "run_group (reduceHybrid w n) input G res g = run_group (reduceBarrier n) input G res g"
proof -
  have "rd (rounds_until 0 (\<lambda>a i. if w < a then i < a else i < w) n (g * G) (G div 2)
             (loaded input n (g * G) G)) 0
      = rd (rounds_until 0 (\<lambda>a i. i < a) n (g * G) (G div 2) (loaded input n (g * G) G)) 0"
    by (rule rounds_agree) auto
  then show ?thesis
    by (simp add: run_group_reduceHybrid [OF v g w] run_group_reduceBarrier [OF v g] rounds_hybrid)
qed

lemma dispatch_cong:
  assumes "\<And>g res. g < numGroups \<Longrightarrow> run_group k1 input G res g = run_group k2 input G res g"
  shows "dispatch k1 input G numGroups res = dispatch k2 input G numGroups res"
proof -
  have "fold (\<lambda>g r. run_group k1 input G r g) gs res = fold (\<lambda>g r. run_group k2 input G r g) gs res"
    if "\<forall>g \<in> set gs. g < numGroups" for gs
    using that by (induction gs arbitrary: res) (simp_all add: assms)
  then show ?thesis by (simp add: dispatch_def)
qed

text \<open>A buffer in which nothing was loaded stays indeterminate.\<close>

lemma round_of_undef: "round_of P n b a (replicate G Undef) = replicate G (Undef :: 'a::plus cell)"
  by (intro nth_equalityI) (auto simp: round_of_def rd_def)

lemma rounds_until_undef:
  "rounds_until w P n b a (replicate G Undef) = replicate G (Undef :: 'a::plus cell)"
proof (induction a rule: less_induct)
  case (less a)
  show ?case
  proof (cases "w < a")
    case True
    then have "a div 2 < a" by simp
    from less [OF this] True show ?thesis by (simp add: rounds_until_go round_of_undef)
  qed (simp add: rounds_until_stop)
qed

lemma loaded_undef: "n \<le> b \<Longrightarrow> loaded input n b G = replicate G Undef"
  by (intro nth_equalityI) (auto simp: loaded_def)

section \<open>The barrier loop sums a tile\<close>

lemma mod_double_cases:
  fixes l a :: nat
  assumes "i < a"
  shows "l mod a = i \<longleftrightarrow> l mod (2 * a) = i \<or> l mod (2 * a) = i + a"
proof
  assume la: "l mod a = i"
  have "l mod (a * 2) = a * (l div a mod 2) + l mod a" by (rule mod_mult2_eq)
  moreover have "l div a mod 2 = 0 \<or> l div a mod 2 = 1" by auto
  ultimately show "l mod (2 * a) = i \<or> l mod (2 * a) = i + a"
    using la by (auto simp: mult.commute)
next
  assume "l mod (2 * a) = i \<or> l mod (2 * a) = i + a"
  moreover have "l mod (2 * a) mod a = l mod a" by (rule mod_mod_cancel) simp
  ultimately show "l mod a = i" using assms by auto
qed

lemma class_sum_split:
  assumes "i < a"
  shows "class_sum xs a i = class_sum xs (2 * a) i + class_sum xs (2 * a) (i + a)"
proof -
  let ?A = "{l. l < length xs \<and> l mod (2 * a) = i}"
  let ?B = "{l. l < length xs \<and> l mod (2 * a) = i + a}"
  have "{l. l < length xs \<and> l mod a = i} = ?A \<union> ?B"
    using mod_double_cases [OF assms] by auto
  moreover have "finite ?A" "finite ?B" by simp_all
  moreover from assms have "?A \<inter> ?B = {}" by auto
  ultimately show ?thesis
    by (simp add: class_sum_def sum.union_disjoint)
qed

lemma class_sum_beyond: "length xs \<le> j \<Longrightarrow> class_sum xs w j = 0"
proof -
  assume j: "length xs \<le> j"
  have "\<not> (l < length xs \<and> l mod w = j)" for l
  proof
    assume l: "l < length xs \<and> l mod w = j"
    have "l mod w \<le> l" by simp
    with l j show False by simp
  qed
  then have e: "{l. l < length xs \<and> l mod w = j} = {}" by blast
  show ?thesis unfolding class_sum_def e by simp
qed

lemma class_sum_single: "length xs \<le> w \<Longrightarrow> i < length xs \<Longrightarrow> class_sum xs w i = xs ! i"
proof -
  assume "length xs \<le> w" "i < length xs"
  then have "{l. l < length xs \<and> l mod w = i} = {i}" by auto
  then show ?thesis by (simp add: class_sum_def)
qed

lemma class_sum_all: "class_sum xs 1 0 = sum_list xs"
proof -
  have "{l. l < length xs \<and> l mod 1 = 0} = {0..<length xs}" by auto
  then show ?thesis by (simp add: class_sum_def sum_list_sum_nth)
qed

text \<open>
  One round of \<^verbatim>\<open>reduceBarrier\<close> on a group whose tile is \<open>xs\<close>: if every slot \<open>i\<close> below
  \<open>2 * a\<close> holds the sum of the class of \<open>i\<close> modulo \<open>2 * a\<close>, then afterwards every slot
  below \<open>a\<close> holds the sum of its class modulo \<open>a\<close>.
\<close>

lemma barrier_round_sum:
  fixes s :: "'a::comm_monoid_add cell list"
  assumes a: "0 < a" "2 * a \<le> length s" and top: "b + length s \<le> 2 ^ 32"
      and m: "\<And>j. j < length s \<Longrightarrow> b + j < n \<longleftrightarrow> j < length xs"
      and inv: "\<And>i. i < 2 * a \<Longrightarrow> i < length xs \<Longrightarrow> s ! i = Val (class_sum xs (2 * a) i)"
      and i: "i < a" "i < length xs"
  shows "round_of (\<lambda>i. i < a) n b a s ! i = Val (class_sum xs a i)"
proof -
  from a i have il: "i < length s" "i + a < length s" "i < 2 * a" "i + a < 2 * a" by simp_all
  from il(2) top have "b + i + a < 2 ^ 32" "i + a < 2 ^ 32" by simp_all
  then have nowrap: "u32_add (b + i) a = b + (i + a)" "u32_add i a = i + a"
    by (simp_all add: u32_add_id)
  from inv [OF il(3) i(2)] have si: "s ! i = Val (class_sum xs (2 * a) i)" .
  show ?thesis
  proof (cases "i + a < length xs")
    case True
    from inv [OF il(4) True] have "s ! (i + a) = Val (class_sum xs (2 * a) (i + a))" .
    with si True il i m [OF il(2)] show ?thesis
      by (simp add: round_of_def nowrap rd_def class_sum_split [OF i(1)])
  next
    case False
    then have "class_sum xs (2 * a) (i + a) = 0" by (intro class_sum_beyond) simp
    with si False il i m [OF il(2)] show ?thesis
      by (simp add: round_of_def nowrap class_sum_split [OF i(1)])
  qed
qed

lemma barrier_rounds_sum:
  fixes s :: "'a::comm_monoid_add cell list"
  assumes "2 * 2 ^ j \<le> length s" and "b + length s \<le> 2 ^ 32"
      and "\<And>j. j < length s \<Longrightarrow> b + j < n \<longleftrightarrow> j < length xs"
      and "\<And>i. i < 2 * 2 ^ j \<Longrightarrow> i < length xs \<Longrightarrow> s ! i = Val (class_sum xs (2 * 2 ^ j) i)"
      and ne: "0 < length xs"
  shows "rounds_until 0 (\<lambda>a i. i < a) n b (2 ^ j) s ! 0 = Val (sum_list xs)"
  using assms(1-4)
proof (induction j arbitrary: s)
  case 0
  from 0 have "(0::nat) < 1" "2 * 1 \<le> length s"
    and "\<And>i. i < 2 * 1 \<Longrightarrow> i < length xs \<Longrightarrow> s ! i = Val (class_sum xs (2 * 1) i)"
    by simp_all
  from barrier_round_sum [of 1 s b n xs 0, OF this(1,2) "0.prems"(2,3) this(3) _ ne]
  have "round_of (\<lambda>i. i < 1) n b 1 s ! 0 = Val (class_sum xs 1 0)" by simp
  then show ?case
    using class_sum_all [of xs] by (simp add: rounds_until_go rounds_until_stop)
next
  case (Suc j)
  let ?a = "(2::nat) ^ Suc j"
  let ?s1 = "round_of (\<lambda>i. i < ?a) n b ?a s"
  have "rounds_until 0 (\<lambda>a i. i < a) n b (2 ^ j) ?s1 ! 0 = Val (sum_list xs)"
  proof (rule Suc.IH)
    from Suc.prems(1) show "2 * 2 ^ j \<le> length ?s1" by simp
    from Suc.prems(2) show "b + length ?s1 \<le> 2 ^ 32" by simp
  next
    fix j' assume "j' < length ?s1"
    with Suc.prems(3) show "b + j' < n \<longleftrightarrow> j' < length xs" by simp
  next
    fix i assume i: "i < 2 * 2 ^ j" "i < length xs"
    from Suc.prems have "0 < ?a" "2 * ?a \<le> length s"
      and "\<And>i. i < 2 * ?a \<Longrightarrow> i < length xs \<Longrightarrow> s ! i = Val (class_sum xs (2 * ?a) i)"
      by simp_all
    from barrier_round_sum [of ?a s b n xs i, OF this(1,2) Suc.prems(2,3) this(3) _ i(2)] i(1)
    show "?s1 ! i = Val (class_sum xs (2 * 2 ^ j) i)" by simp
  qed
  then show ?case by (simp add: rounds_until_go)
qed

lemma length_tile: "n \<le> length input \<Longrightarrow> length (tile input n G g) = min G (n - g * G)"
  by (simp add: tile_def min_def)

lemma nth_tile:
  assumes "n \<le> length input" and "i < length (tile input n G g)"
  shows "tile input n G g ! i = input ! (g * G + i)"
proof -
  from assms have i: "i < G" "g * G + i < n"
    by (simp_all add: length_tile less_diff_conv add.commute)
  then have "g * G \<le> length (take n input)" using assms(1) by simp
  then have "drop (g * G) (take n input) ! i = take n input ! (g * G + i)" by (rule nth_drop)
  with i show ?thesis by (simp add: tile_def)
qed

lemma barrier_group_value:
  fixes input :: "'a::comm_monoid_add list"
  assumes v: "valid_launch n G numGroups" and g: "g < numGroups" and G: "G = 2 ^ k"
      and n: "n \<le> length input" and ne: "g * G < n"
  shows "rd (rounds_until 0 (\<lambda>a i. i < a) n (g * G) (G div 2) (loaded input n (g * G) G)) 0
           = Val (sum_list (tile input n G g))"
proof -
  let ?xs = "tile input n G g"
  let ?s = "loaded input n (g * G) G"
  have len: "length ?xs = min G (n - g * G)" by (rule length_tile [OF n])
  from G have Gpos: "0 < G" by simp
  with ne len have xs: "0 < length ?xs" by simp
  from g have "Suc g \<le> numGroups" by simp
  then have "Suc g * G \<le> numGroups * G" by (rule mult_le_mono1)
  with v have top: "g * G + length ?s \<le> 2 ^ 32" by (simp add: valid_launch_def)
  have m: "g * G + j < n \<longleftrightarrow> j < length ?xs" if "j < length ?s" for j
    using that len by auto
  have ld: "?s ! i = Val (class_sum ?xs G i)" if "i < G" "i < length ?xs" for i
  proof -
    from that len have "g * G + i < n" by simp
    with n that show ?thesis
      by (simp add: loaded_def rd_input_def class_sum_single len nth_tile [OF n])
  qed
  have "rounds_until 0 (\<lambda>a i. i < a) n (g * G) (G div 2) ?s ! 0 = Val (sum_list ?xs)"
  proof (cases k)
    case 0
    with G have "G = 1" by simp
    with ld [of 0] xs class_sum_all [of ?xs] show ?thesis
      by (simp add: rounds_until_stop)
  next
    case (Suc j)
    with G have G2: "G = 2 * 2 ^ j" "G div 2 = 2 ^ j" by simp_all
    have "rounds_until 0 (\<lambda>a i. i < a) n (g * G) (2 ^ j) ?s ! 0 = Val (sum_list ?xs)"
    proof (rule barrier_rounds_sum [OF _ top _ _ xs])
      show "2 * 2 ^ j \<le> length ?s" using G2 by simp
    next
      fix j' assume "j' < length ?s"
      then show "g * G + j' < n \<longleftrightarrow> j' < length ?xs" by (rule m)
    next
      fix i assume "i < 2 * 2 ^ j" "i < length ?xs"
      with ld [of i] G2(1) show "?s ! i = Val (class_sum ?xs (2 * 2 ^ j) i)" by simp
    qed
    with G2 show ?thesis by simp
  qed
  with Gpos show ?thesis
    by (simp add: rd_def)
qed

lemma run_group_barrier_sum:
  fixes input :: "'a::comm_monoid_add list"
  assumes v: "valid_launch n G numGroups" and g: "g < numGroups" and G: "G = 2 ^ k"
      and n: "n \<le> length input" and ne: "g * G < n"
  shows "run_group (reduceBarrier n) input G res g = res[g := Val (sum_list (tile input n G g))]"
  by (simp add: run_group_reduceBarrier [OF v g] barrier_group_value [OF assms])

text \<open>A dispatch whose groups each overwrite their own slot.\<close>

lemma dispatch_slots:
  assumes "\<And>g r. g < numGroups \<Longrightarrow> run_group krn input G r g = r[g := f g]"
      and "k \<le> numGroups"
  shows "fold (\<lambda>g r. run_group krn input G r g) [0..<k] res
           = map (\<lambda>g. if g < k then f g else res ! g) [0..<length res]"
  using assms(2)
proof (induction k)
  case 0
  show ?case by (simp add: map_nth)
next
  case (Suc k)
  then have IH: "fold (\<lambda>g r. run_group krn input G r g) [0..<k] res
           = map (\<lambda>g. if g < k then f g else res ! g) [0..<length res]"
    and k: "k < numGroups" by simp_all
  have "(map (\<lambda>g. if g < k then f g else res ! g) [0..<length res])[k := f k]
      = map (\<lambda>g. if g < Suc k then f g else res ! g) [0..<length res]"
    by (intro nth_equalityI) (auto simp: nth_list_update less_Suc_eq)
  with IH assms(1) [OF k] show ?case by simp
qed

lemma dispatch_reduceBarrier:
  assumes v: "valid_launch n G numGroups"
  shows "dispatch (reduceBarrier n) input G numGroups res
           = map (\<lambda>g. if g < numGroups
                       then rd (rounds_until 0 (\<lambda>a i. i < a) n (g * G) (G div 2)
                                  (loaded input n (g * G) G)) 0
                       else res ! g) [0..<length res]"
  unfolding dispatch_def
  by (rule dispatch_slots [where numGroups = numGroups]) (simp_all add: run_group_reduceBarrier [OF v])

lemma dispatch_barrier_slot:
  fixes input :: "'a::comm_monoid_add list"
  assumes v: "valid_launch n G numGroups" and G: "G = 2 ^ k" and n: "n \<le> length input"
      and g: "g < numGroups" and ne: "g * G < n" and gl: "g < length res"
  shows "dispatch (reduceBarrier n) input G numGroups res ! g = Val (sum_list (tile input n G g))"
  using g gl by (simp add: dispatch_reduceBarrier [OF v] barrier_group_value [OF v g G n ne])

lemma dispatch_barrier_all:
  fixes input :: "'a::comm_monoid_add list"
  assumes v: "valid_launch n G numGroups" and G: "G = 2 ^ k" and n: "n \<le> length input"
      and ne: "\<And>g. g < numGroups \<Longrightarrow> g * G < n" and len: "length res = numGroups"
  shows "dispatch (reduceBarrier n) input G numGroups res
           = map (\<lambda>g. Val (sum_list (tile input n G g))) [0..<numGroups]"
  unfolding dispatch_reduceBarrier [OF v] len
  by (rule map_cong) (simp_all add: barrier_group_value [OF v _ G n ne])

text \<open>The tiles of the groups make up the input.\<close>

lemma concat_tiles: "concat (map (\<lambda>g. take G (drop (g * G) xs)) [0..<k]) = take (k * G) xs"
proof (induction k)
  case (Suc k)
  have "take (k * G + G) xs = take (k * G) xs @ take G (drop (k * G) xs)"
    by (rule take_add)
  moreover have "Suc k * G = k * G + G" by simp
  ultimately have "take (Suc k * G) xs = take (k * G) xs @ take G (drop (k * G) xs)"
    by (simp only:)
  with Suc show ?case by simp
qed simp

lemma sum_list_concat_map:
  fixes xss :: "'a::monoid_add list list"
  shows "sum_list (concat xss) = sum_list (map sum_list xss)"
  by (induction xss) simp_all

lemma sum_cells_Val: "sum_cells (map Val ys) = Val (sum_list ys)"
  by (induction ys) (simp_all add: sum_cells_def)

lemma sum_tiles:
  fixes input :: "'a::comm_monoid_add list"
  assumes "n \<le> numGroups * G"
  shows "sum_cells (map (\<lambda>g. Val (sum_list (tile input n G g))) [0..<numGroups])
           = Val (sum_list (take n input))"
proof -
  have "map (\<lambda>g. Val (sum_list (tile input n G g))) [0..<numGroups]
      = map Val (map (\<lambda>g. sum_list (tile input n G g)) [0..<numGroups])" by simp
  moreover have "sum_list (map (\<lambda>g. sum_list (tile input n G g)) [0..<numGroups])
      = sum_list (concat (map (\<lambda>g. take G (drop (g * G) (take n input))) [0..<numGroups]))"
    by (simp add: sum_list_concat_map tile_def comp_def)
  moreover from assms have "take (numGroups * G) (take n input) = take n input" by simp
  ultimately show ?thesis by (simp only: sum_cells_Val concat_tiles)
qed

lemma ceil_groups:
  fixes G n numGroups g :: nat
  assumes "0 < G" and "numGroups = (n + G - 1) div G"
  shows "n \<le> numGroups * G" and "g < numGroups \<Longrightarrow> g * G < n"
proof -
  let ?q = "(n + G - 1) div G"
  from assms(1) have up: "n + G - 1 < ?q * G + G"
    using dividend_less_div_times [OF assms(1), of "n + G - 1"] by (simp add: add.commute)
  with assms show "n \<le> numGroups * G" by simp
  assume "g < numGroups"
  with assms(2) have "Suc g \<le> ?q" by simp
  then have "Suc g * G \<le> ?q * G" by (rule mult_le_mono1)
  also have "\<dots> \<le> n + G - 1" by simp
  finally show "g * G < n" using assms(1) by simp
qed

text \<open>A work-item beyond the input, in a group that has input, only idles and waits.\<close>

lemma beyond_input_idle:
  assumes v: "valid_launch n G numGroups" and g: "g < numGroups"
      and t: "t \<in> set (work_items G g)" and out: "n \<le> global_id t" and ne: "g * G < n"
  shows "set (reduceBarrier n t) \<subseteq> {Idle, Fence}"
proof -
  note c = work_item_coords [OF t] and u = work_item_u32 [OF v g t]
  from out c have nl: "\<not> g * G + local_id t < n" by simp
  with ne have i0: "local_id t \<noteq> 0" by auto
  have "x = Idle \<or> x = Fence"
    if x: "x \<in> set (barrierLoop n (local_id t) (g * G + local_id t) (G div 2))" for x
  proof -
    from barrierLoop_steps [OF x] consider "x = Idle \<or> x = Fence" | s where "x = Combine (local_id t) s"
      by blast
    then show ?thesis
    proof cases
      case 2
      with x barrierLoop_combines [of "local_id t" s n "local_id t" "g * G + local_id t" "G div 2"]
      obtain b where b: "b \<le> G div 2" "local_id t < b" "u32_add (g * G + local_id t) b < n"
        by auto
      from b(1,2) u(4) have "g * G + local_id t + b < 2 ^ 32" by linarith
      then have "u32_add (g * G + local_id t) b = g * G + local_id t + b" by (rule u32_add_id)
      with b(3) nl show ?thesis by simp
    qed
  qed
  with nl i0 show ?thesis
    by (auto simp: reduceBarrier_def Let_def u)
qed

text \<open>Evaluating a dispatch of \<^verbatim>\<open>reduceBarrier\<close> on given numbers.\<close>

lemmas kernel_eval = dispatch_def run_group_def work_items_def reduceBarrier_def u32_def u32_add_def
  barrierLoop.simps run.simps exec_row_def heads_def rd_def rd_input_def upt_rec

text \<open>A whole pass, with one group for every started tile.\<close>

lemma dispatch_barrier_total:
  fixes input :: "'a::comm_monoid_add list"
  assumes v: "valid_launch n G numGroups" and G: "G = 2 ^ k" and n: "n \<le> length input"
      and groups: "numGroups = (n + G - 1) div G" and len: "length res = numGroups"
  shows "dispatch (reduceBarrier n) input G numGroups res
           = map (\<lambda>g. Val (sum_list (tile input n G g))) [0..<numGroups]"
    and "sum_cells (dispatch (reduceBarrier n) input G numGroups res) = Val (sum_list (take n input))"
proof -
  from G have Gpos: "0 < G" by simp
  note cg = ceil_groups [OF Gpos groups]
  show d: "dispatch (reduceBarrier n) input G numGroups res
           = map (\<lambda>g. Val (sum_list (tile input n G g))) [0..<numGroups]"
    by (rule dispatch_barrier_all [OF v G n cg(2) len])
  show "sum_cells (dispatch (reduceBarrier n) input G numGroups res) = Val (sum_list (take n input))"
    unfolding d by (rule sum_tiles [OF cg(1)])
qed

lemma sixteen_tiles:
  fixes xs :: "'a::comm_monoid_add list"
  assumes "length xs = 16"
  shows "sum_list (take 4 xs) + (sum_list (take 4 (drop 4 xs)) +
           (sum_list (take 4 (drop 8 xs)) + sum_list (take 4 (drop 12 xs)))) = sum_list xs"
proof -
  have "concat (map (\<lambda>g. take 4 (drop (g * 4) xs)) [0..<4]) = take (4 * 4) xs"
    by (rule concat_tiles)
  moreover have "[0..<4] = [0, 1, 2, 3]" by (simp add: upt_rec)
  ultimately have "take 4 xs @ take 4 (drop 4 xs) @ take 4 (drop 8 xs) @ take 4 (drop 12 xs) = xs"
    using assms by simp
  then have "sum_list (take 4 xs @ take 4 (drop 4 xs) @ take 4 (drop 8 xs) @ take 4 (drop 12 xs))
      = sum_list xs" by (simp only:)
  then show ?thesis by simp
qed

section \<open>The rows of \<^verbatim>\<open>reduceBarrier\<close> are free of races\<close>

lemma length_barrierLoop: "length (barrierLoop n i g a) = length (barrierLoop n i' g' a)"
proof (induction a rule: less_induct)
  case (less a)
  show ?case
  proof (cases "a = 0")
    case False
    then have "a div 2 < a" by simp
    from less [OF this] False show ?thesis by (simp add: barrierLoop_pos)
  qed (simp add: barrierLoop_0)
qed

lemma barrierLoop_pairs:
  assumes "(x, y) \<in> set (zip (barrierLoop n i g a) (barrierLoop n i' g' a))"
  shows "(x = Fence \<and> y = Fence) \<or>
         (\<exists>b. 0 < b \<and> b \<le> a \<and>
            x = (if i < b \<and> u32_add g b < n then Combine i (u32_add i b) else Idle) \<and>
            y = (if i' < b \<and> u32_add g' b < n then Combine i' (u32_add i' b) else Idle))"
  using assms
proof (induction a rule: less_induct)
  case (less a)
  show ?case
  proof (cases "a = 0")
    case True
    with less.prems show ?thesis by (simp add: barrierLoop_0)
  next
    case False
    then have lt: "a div 2 < a" by simp
    from less.prems False consider
        "x = (if i < a \<and> u32_add g a < n then Combine i (u32_add i a) else Idle) \<and>
         y = (if i' < a \<and> u32_add g' a < n then Combine i' (u32_add i' a) else Idle)"
      | "x = Fence \<and> y = Fence"
      | "(x, y) \<in> set (zip (barrierLoop n i g (a div 2)) (barrierLoop n i' g' (a div 2)))"
      by (auto simp: barrierLoop_pos)
    then show ?thesis
    proof cases
      case 1
      with False show ?thesis by (intro disjI2 exI [of _ a]) simp
    next
      case 2
      then show ?thesis by simp
    next
      case 3
      from less.IH [OF lt 3] lt show ?thesis
        by (elim disjE exE conjE) (simp, intro disjI2 exI, auto)
    qed
  qed
qed

text \<open>
  At every position of the instruction streams of two different work-items of a group, the
  slot that one of them writes is neither read nor written by the other. So the
  instructions between two barriers commute, and executing them as one row gives what
  every interleaving gives.
\<close>

lemma barrier_row_race_free:
  assumes v: "valid_launch n G numGroups" and g: "g < numGroups"
      and t: "t \<in> set (work_items G g)" and t': "t' \<in> set (work_items G g)"
      and ne: "local_id t \<noteq> local_id t'"
      and xy: "(x, y) \<in> set (zip (reduceBarrier n t) (reduceBarrier n t'))"
  shows "writes_of y \<inter> (reads_of x \<union> writes_of x) = {}"
proof -
  note u = work_item_u32 [OF v g t] and u' = work_item_u32 [OF v g t']
  note c = work_item_coords [OF t] and c' = work_item_coords [OF t']
  let ?i = "local_id t" and ?i' = "local_id t'"
  let ?loop = "barrierLoop n ?i (g * G + ?i) (G div 2)"
  let ?loop' = "barrierLoop n ?i' (g * G + ?i') (G div 2)"
  from v have G31: "G \<le> 2 ^ 31" by (simp add: valid_launch_def)
  have len: "length ?loop = length ?loop'" by (rule length_barrierLoop)
  from xy consider
      (load) "x = (if g * G + ?i < n then Load ?i (g * G + ?i) else Idle)"
             "y = (if g * G + ?i' < n then Load ?i' (g * G + ?i') else Idle)"
    | (fence) "x = Fence" "y = Fence"
    | (loop) "(x, y) \<in> set (zip ?loop ?loop')"
    | (store) "x = (if ?i = 0 then Store (group_id t) else Idle)"
              "y = (if ?i' = 0 then Store (group_id t') else Idle)"
    by (auto simp: reduceBarrier_def Let_def u u' zip_append [OF len])
  then show ?thesis
  proof cases
    case load
    with ne show ?thesis by auto
  next
    case fence
    then show ?thesis by simp
  next
    case store
    then show ?thesis by auto
  next
    case loop
    from barrierLoop_pairs [OF loop] consider "x = Fence \<and> y = Fence"
      | b where "0 < b" "b \<le> G div 2"
          "x = (if ?i < b \<and> u32_add (g * G + ?i) b < n then Combine ?i (u32_add ?i b) else Idle)"
          "y = (if ?i' < b \<and> u32_add (g * G + ?i') b < n then Combine ?i' (u32_add ?i' b) else Idle)"
      by blast
    then show ?thesis
    proof cases
      case 1
      then show ?thesis by simp
    next
      case 2
      from 2(2) c(1) G31 have "?i + b < 2 ^ 32" by simp
      then have "u32_add ?i b = ?i + b" by (rule u32_add_id)
      with 2 ne show ?thesis by auto
    qed
  qed
qed

section \<open>The claims\<close>

subsection \<open>C1: each group of \<^verbatim>\<open>reduceBarrier\<close> sums its tile\<close>

text \<open>
  Claim C1 says that for every group size, powers of two or not, each group's slot of
  \<^verbatim>\<open>results\<close> is the sum of the in-range elements of the group's tile. The loop halves
  \<^verbatim>\<open>activeThreadCount\<close> with \<^verbatim>\<open>>>= 1\<close>: with a group size of 3 it runs one round with
  active count 1, which adds slot 1 into slot 0 and never reads slot 2. On the input
  \<open>[1, 2, 3]\<close> the one group writes 3, and the sum of its tile is 6.
\<close>

theorem reduceBarrier_tile_sum_counterexample:
  "valid_launch 3 3 1 \<and>
   dispatch (reduceBarrier 3) [1, 2, 3 :: real] 3 1 [Undef] = [Val 3] \<and>
   sum_list (tile [1, 2, 3 :: real] 3 3 0) = 6"
  by (simp add: valid_launch_def tile_def kernel_eval)

text \<open>
  C1, amended: in a valid launch whose group size is a power of two, every group whose tile
  has at least one in-range element writes the sum of the in-range elements of its tile
  into its slot of \<^verbatim>\<open>results\<close> (addition of doubles modelled exactly, as the addition of a
  commutative monoid). Scenario 1 is an instance: \<open>[1, 2, 3, 4, 5, 6, 7, 8]\<close> reduced by
  one group of size 8 gives \<open>[36]\<close>.
\<close>

theorem reduceBarrier_tile_sum:
  fixes input :: "'a::comm_monoid_add list"
  assumes "valid_launch n G numGroups" and "G = 2 ^ k" and "n \<le> length input"
      and "g < numGroups" and "g * G < n" and "g < length res"
  shows "dispatch (reduceBarrier n) input G numGroups res ! g = Val (sum_list (tile input n G g))"
  using assms by (rule dispatch_barrier_slot)

theorem reduceBarrier_tile_sum_witness:
  "valid_launch 8 8 1 \<and> (8::nat) = 2 ^ 3 \<and> (8::nat) \<le> length [1, 2, 3, 4, 5, 6, 7, 8 :: real] \<and>
   (0::nat) < 1 \<and> (0::nat) * 8 < 8 \<and> 0 < length [Undef :: real cell] \<and>
   dispatch (reduceBarrier 8) [1, 2, 3, 4, 5, 6, 7, 8 :: real] 8 1 [Undef] ! 0 = Val 36 \<and>
   dispatch (reduceBarrier 8) [1, 2, 3, 4, 5, 6, 7, 8 :: real] 8 1 [Undef] = [Val 36]"
proof -
  have v: "valid_launch 8 8 1" by (simp add: valid_launch_def)
  have h: "(8::nat) = 2 ^ 3" "(8::nat) \<le> length [1, 2, 3, 4, 5, 6, 7, 8 :: real]"
    "(0::nat) < 1" "(0::nat) * 8 < 8" "0 < length [Undef :: real cell]"
    by simp_all
  have t: "sum_list (tile [1, 2, 3, 4, 5, 6, 7, 8 :: real] 8 8 0) = 36"
    by (simp add: tile_def)
  have e: "dispatch (reduceBarrier 8) [1, 2, 3, 4, 5, 6, 7, 8 :: real] 8 1 [Undef] = [Val 36]"
    by (simp add: kernel_eval)
  from reduceBarrier_tile_sum [OF v h] t
  have s: "dispatch (reduceBarrier 8) [1, 2, 3, 4, 5, 6, 7, 8 :: real] 8 1 [Undef] ! 0 = Val 36"
    by simp
  with e v show ?thesis by simp
qed

subsection \<open>C2: one pass preserves the sum\<close>

text \<open>
  Claim C2 says that for any valid group size the slots of \<^verbatim>\<open>results\<close> after one pass of
  \<^verbatim>\<open>reduceBarrier\<close> sum to the sum of the input. Neither \<^verbatim>\<open>reduce.c\<close> nor its launch
  conditions make a power of two a condition on the group size, and as for C1 the halving
  loop does not cover the tile of a group whose size is no power of two: on the input
  \<open>[1, 2, 3]\<close>, one group of size 3 (one group for the one started tile, all indices
  representable) leaves 3 in its slot, and the input sums to 6.
\<close>

theorem reduceBarrier_pass_sum_counterexample:
  "valid_launch 3 3 1 \<and> (3::nat) \<le> length [1, 2, 3 :: real] \<and> (1::nat) = (3 + 3 - 1) div 3 \<and>
   length [Undef :: real cell] = 1 \<and>
   sum_cells (dispatch (reduceBarrier 3) [1, 2, 3 :: real] 3 1 [Undef]) = Val 3 \<and>
   sum_list [1, 2, 3 :: real] = 6"
  by (simp add: valid_launch_def sum_cells_def kernel_eval)

text \<open>
  C2, amended: take a valid launch of \<^verbatim>\<open>reduceBarrier\<close> whose group size is a power of
  two, with one group for every started tile of the input. Then the sum of the slots of
  \<^verbatim>\<open>results\<close> after the pass is the sum of the first \<^verbatim>\<open>inputLength\<close> input elements
  (addition modelled exactly, as the addition of a commutative monoid). In particular
  (Scenario 3), sixteen inputs with group size 4 give the four tile sums, and a second pass
  over these four values with group size 4 gives the sum of all sixteen.
\<close>

theorem reduceBarrier_pass_sum:
  fixes input xs :: "'a::comm_monoid_add list"
  assumes "valid_launch n G numGroups" and "G = 2 ^ k" and "n \<le> length input"
      and "numGroups = (n + G - 1) div G" and "length res = numGroups"
  shows "sum_cells (dispatch (reduceBarrier n) input G numGroups res) = Val (sum_list (take n input)) \<and>
         (length xs = 16 \<and> length r4 = 4 \<and> length r1 = 1 \<longrightarrow>
            dispatch (reduceBarrier 16) xs 4 4 r4
              = [Val (sum_list (take 4 xs)), Val (sum_list (take 4 (drop 4 xs))),
                 Val (sum_list (take 4 (drop 8 xs))), Val (sum_list (take 4 (drop 12 xs)))] \<and>
            dispatch (reduceBarrier 4)
                [sum_list (take 4 xs), sum_list (take 4 (drop 4 xs)),
                 sum_list (take 4 (drop 8 xs)), sum_list (take 4 (drop 12 xs))] 4 1 r1
              = [Val (sum_list xs)])"
proof (intro conjI impI)
  show "sum_cells (dispatch (reduceBarrier n) input G numGroups res) = Val (sum_list (take n input))"
    using assms by (rule dispatch_barrier_total(2))
next
  assume a: "length xs = 16 \<and> length r4 = 4 \<and> length r1 = 1"
  have v16: "valid_launch 16 4 4" and v4: "valid_launch 4 4 1" by (simp_all add: valid_launch_def)
  have G: "(4::nat) = 2 ^ 2" by simp
  have up: "[0..<4] = [0, 1, 2, 3]" "[0..<1] = [0]" by (simp_all add: upt_rec)
  from a have "dispatch (reduceBarrier 16) xs 4 4 r4
      = map (\<lambda>g. Val (sum_list (tile xs 16 4 g))) [0..<4]"
    by (intro dispatch_barrier_total(1) [OF v16 G]) simp_all
  with a show "dispatch (reduceBarrier 16) xs 4 4 r4
              = [Val (sum_list (take 4 xs)), Val (sum_list (take 4 (drop 4 xs))),
                 Val (sum_list (take 4 (drop 8 xs))), Val (sum_list (take 4 (drop 12 xs)))]"
    by (simp add: up tile_def)
  let ?ys = "[sum_list (take 4 xs), sum_list (take 4 (drop 4 xs)),
                 sum_list (take 4 (drop 8 xs)), sum_list (take 4 (drop 12 xs))]"
  from a have "dispatch (reduceBarrier 4) ?ys 4 1 r1 = map (\<lambda>g. Val (sum_list (tile ?ys 4 4 g))) [0..<1]"
    by (intro dispatch_barrier_total(1) [OF v4 G]) simp_all
  with a sixteen_tiles [of xs] show "dispatch (reduceBarrier 4) ?ys 4 1 r1 = [Val (sum_list xs)]"
    by (simp add: up tile_def)
qed

theorem reduceBarrier_pass_sum_witness:
  "valid_launch 16 4 4 \<and> (4::nat) = 2 ^ 2 \<and>
   (16::nat) \<le> length [1, 2, 3, 4, 5, 6, 7, 8, 9, 10, 11, 12, 13, 14, 15, 16 :: real] \<and>
   (4::nat) = (16 + 4 - 1) div 4 \<and> length [Undef, Undef, Undef, Undef :: real cell] = 4 \<and>
   sum_cells (dispatch (reduceBarrier 16)
      [1, 2, 3, 4, 5, 6, 7, 8, 9, 10, 11, 12, 13, 14, 15, 16 :: real] 4 4
      [Undef, Undef, Undef, Undef]) = Val 136 \<and>
   dispatch (reduceBarrier 16)
      [1, 2, 3, 4, 5, 6, 7, 8, 9, 10, 11, 12, 13, 14, 15, 16 :: real] 4 4
      [Undef, Undef, Undef, Undef] = [Val 10, Val 26, Val 42, Val 58] \<and>
   dispatch (reduceBarrier 4) [10, 26, 42, 58 :: real] 4 1 [Undef] = [Val 136]"
proof -
  let ?xs = "[1, 2, 3, 4, 5, 6, 7, 8, 9, 10, 11, 12, 13, 14, 15, 16 :: real]"
  let ?r4 = "[Undef, Undef, Undef, Undef :: real cell]"
  have v: "valid_launch 16 4 4" by (simp add: valid_launch_def)
  have h: "(4::nat) = 2 ^ 2" "(16::nat) \<le> length ?xs" "(4::nat) = (16 + 4 - 1) div 4" "length ?r4 = 4"
    by simp_all
  from reduceBarrier_pass_sum [OF v h, of ?xs ?r4 "[Undef]"] v
  show ?thesis by (simp add: sum_cells_def)
qed

subsection \<open>C3: the three variants agree\<close>

text \<open>
  Claim C3. In a valid launch with a sub-group width of at least one, \<^verbatim>\<open>reduceHybrid\<close> and
  \<^verbatim>\<open>reduceBarrier\<close> leave the same \<^verbatim>\<open>results\<close> buffer, slot by slot, and when the group
  size does not exceed the sub-group width (the precondition of \<^verbatim>\<open>reduceSimd\<close>) so does
  \<^verbatim>\<open>reduceSimd\<close>. The element type is any type with an addition: the three kernels add the
  same operands in the same order, so the equality does not rest on associativity.
\<close>

theorem variants_agree:
  assumes "valid_launch n G numGroups" and "0 < w"
  shows "dispatch (reduceHybrid w n) input G numGroups res
           = dispatch (reduceBarrier n) input G numGroups res \<and>
         (G \<le> w \<longrightarrow>
            dispatch (reduceSimd n) input G numGroups res
              = dispatch (reduceBarrier n) input G numGroups res)"
  using assms
  by (auto intro!: dispatch_cong run_group_hybrid_eq_barrier run_group_simd_eq_barrier)

theorem variants_agree_witness:
  "valid_launch 8 4 2 \<and> (0::nat) < 4 \<and> (4::nat) \<le> 4 \<and>
   dispatch (reduceBarrier 8) [1, 2, 3, 4, 5, 6, 7, 8 :: real] 4 2 [Undef, Undef] = [Val 10, Val 26] \<and>
   dispatch (reduceHybrid 4 8) [1, 2, 3, 4, 5, 6, 7, 8 :: real] 4 2 [Undef, Undef] = [Val 10, Val 26] \<and>
   dispatch (reduceSimd 8) [1, 2, 3, 4, 5, 6, 7, 8 :: real] 4 2 [Undef, Undef] = [Val 10, Val 26]"
proof -
  have v: "valid_launch 8 4 2" by (simp add: valid_launch_def)
  have w: "(0::nat) < 4" by simp
  have b: "dispatch (reduceBarrier 8) [1, 2, 3, 4, 5, 6, 7, 8 :: real] 4 2 [Undef, Undef]
      = [Val 10, Val 26]"
    by (simp add: dispatch_def run_group_def work_items_def reduceBarrier_def u32_def u32_add_def
        barrierLoop.simps run.simps exec_row_def heads_def rd_def rd_input_def upt_rec)
  from variants_agree [OF v w, of "[1, 2, 3, 4, 5, 6, 7, 8 :: real]" "[Undef, Undef]"] b v
  show ?thesis by simp
qed

subsection \<open>C4: the sources of the combine steps\<close>

text \<open>
  Claim C4 says that in every variant a combine step reads only a source slot inside the
  group's buffer, and that the combine of \<^verbatim>\<open>reduceSimd\<close> has the guard of
  \<^verbatim>\<open>reduceBarrier\<close>. The guard of \<^verbatim>\<open>reduceSimd\<close> lacks \<^verbatim>\<open>i < activeThreadCount\<close>: in a
  launch of two groups of four work-items over eight inputs, the work-item with local
  index 3 of group 0 combines from the slots 5 and 4, which are not below the group size.
\<close>

theorem combine_sources_counterexample:
  "valid_launch 8 4 2 \<and>
   \<lparr>local_id = 3, global_id = 3, local_size = 4, group_id = 0\<rparr> \<in> set (work_items 4 0) \<and>
   reduceSimd 8 \<lparr>local_id = 3, global_id = 3, local_size = 4, group_id = 0\<rparr>
     = [Load 3 3, Combine 3 5, Combine 3 4, Store 0] \<and>
   \<not> (5::nat) < 4"
  by (simp add: valid_launch_def work_items_def reduceSimd_def u32_def u32_add_def simdLoop.simps)

text \<open>
  C4, amended. In \<^verbatim>\<open>reduceBarrier\<close> every combine step of a work-item targets the
  work-item's own slot and reads a source slot inside the group's buffer that a work-item
  of the group with global index below \<^verbatim>\<open>inputLength\<close> has loaded. In \<^verbatim>\<open>reduceSimd\<close> and
  \<^verbatim>\<open>reduceHybrid\<close> every combine step targets the work-item's own slot and reads a higher
  slot; the source lies inside the buffer whenever the work-item's local index is below
  the active count (the distance between source and target), and a source inside the
  buffer was loaded by a work-item of the group with global index below \<^verbatim>\<open>inputLength\<close>.
\<close>

theorem combine_sources:
  assumes v: "valid_launch n G numGroups" and g: "g < numGroups"
      and t: "t \<in> set (work_items G g)"
  shows "(Combine tgt src \<in> set (reduceBarrier n t) \<longrightarrow>
            tgt = local_id t \<and> src < G \<and> g * G + src < n \<and>
            Load src (g * G + src) \<in> set (reduceBarrier n
               \<lparr>local_id = src, global_id = g * G + src, local_size = G, group_id = g\<rparr>)) \<and>
         (Combine tgt src \<in> set (reduceSimd n t) \<longrightarrow>
            tgt = local_id t \<and> tgt < src \<and> (tgt < src - tgt \<longrightarrow> src < G) \<and>
            (src < G \<longrightarrow> g * G + src < n \<and>
               Load src (g * G + src) \<in> set (reduceSimd n
                 \<lparr>local_id = src, global_id = g * G + src, local_size = G, group_id = g\<rparr>))) \<and>
         (Combine tgt src \<in> set (reduceHybrid w n t) \<longrightarrow>
            tgt = local_id t \<and> tgt < src \<and> (tgt < src - tgt \<longrightarrow> src < G) \<and>
            (src < G \<longrightarrow> g * G + src < n \<and>
               Load src (g * G + src) \<in> set (reduceHybrid w n
                 \<lparr>local_id = src, global_id = g * G + src, local_size = G, group_id = g\<rparr>)))"
proof -
  note c = work_item_coords [OF t]
  note u = work_item_u32 [OF v g t]
  from v have G31: "G \<le> 2 ^ 31" by (simp add: valid_launch_def)
  have src_nowrap: "u32_add (local_id t) b = local_id t + b" if "b \<le> G div 2" for b
    using that c(1) G31 by (intro u32_add_id) simp
  have gid_nowrap: "u32_add (g * G + local_id t) b = g * G + local_id t + b"
    if "local_id t + b < G" for b
    using that u(4) by (intro u32_add_id) linarith
  have owner: "s < G \<Longrightarrow>
      \<lparr>local_id = s, global_id = g * G + s, local_size = G, group_id = g\<rparr> \<in> set (work_items G g)" for s
    by (auto simp: work_items_def)
  have loadB: "Load s (g * G + s) \<in> set (reduceBarrier n
               \<lparr>local_id = s, global_id = g * G + s, local_size = G, group_id = g\<rparr>)"
    if "s < G" "g * G + s < n" for s
    using work_item_u32 [OF v g owner [OF that(1)]] that(2)
    by (simp add: reduceBarrier_def Let_def)
  have loadS: "Load s (g * G + s) \<in> set (reduceSimd n
               \<lparr>local_id = s, global_id = g * G + s, local_size = G, group_id = g\<rparr>)"
    if "s < G" "g * G + s < n" for s
    using work_item_u32 [OF v g owner [OF that(1)]] that(2)
    by (simp add: reduceSimd_def Let_def)
  have loadH: "Load s (g * G + s) \<in> set (reduceHybrid w n
               \<lparr>local_id = s, global_id = g * G + s, local_size = G, group_id = g\<rparr>)"
    if "s < G" "g * G + s < n" for s
    using work_item_u32 [OF v g owner [OF that(1)]] that(2)
    by (simp add: reduceHybrid_unfold)
  \<comment> \<open>a combine whose work-item has a local index below the active count\<close>
  have guarded: "tgt = local_id t \<and> tgt < src \<and> src < G \<and> g * G + src < n"
    if b: "0 < b" "b \<le> G div 2" "local_id t < b" "u32_add (g * G + local_id t) b < n"
       "tgt = local_id t" "src = u32_add (local_id t) b" for b
  proof -
    from b(2,3) have "local_id t + b < G" by linarith
    with gid_nowrap [OF this] src_nowrap [OF b(2)] b show ?thesis by simp
  qed
  \<comment> \<open>a combine guarded by the global index only\<close>
  have unguarded: "tgt = local_id t \<and> tgt < src \<and> (tgt < src - tgt \<longrightarrow> src < G) \<and>
            (src < G \<longrightarrow> g * G + src < n)"
    if b: "0 < b" "b \<le> G div 2" "u32_add (g * G + local_id t) b < n"
       "tgt = local_id t" "src = u32_add (local_id t) b" for b
  proof -
    from src_nowrap [OF b(2)] b have s: "src = local_id t + b" by simp
    have "g * G + src < n" if "src < G"
      using gid_nowrap [of b] that s b(3) by simp
    moreover have "src < G" if "tgt < src - tgt"
      using that s b by simp
    ultimately show ?thesis using s b by simp
  qed
  have B: "tgt = local_id t \<and> src < G \<and> g * G + src < n \<and>
            Load src (g * G + src) \<in> set (reduceBarrier n
               \<lparr>local_id = src, global_id = g * G + src, local_size = G, group_id = g\<rparr>)"
    if "Combine tgt src \<in> set (reduceBarrier n t)"
  proof -
    from that have "Combine tgt src \<in> set (barrierLoop n (local_id t) (g * G + local_id t) (G div 2))"
      by (auto simp: reduceBarrier_def Let_def u split: if_splits)
    from barrierLoop_combines [OF this] guarded loadB show ?thesis by blast
  qed
  have S: "tgt = local_id t \<and> tgt < src \<and> (tgt < src - tgt \<longrightarrow> src < G) \<and>
            (src < G \<longrightarrow> g * G + src < n \<and>
               Load src (g * G + src) \<in> set (reduceSimd n
                 \<lparr>local_id = src, global_id = g * G + src, local_size = G, group_id = g\<rparr>))"
    if "Combine tgt src \<in> set (reduceSimd n t)"
  proof -
    from that have "Combine tgt src \<in> set (simdLoop n (local_id t) (g * G + local_id t) (G div 2))"
      by (auto simp: reduceSimd_def Let_def u split: if_splits)
    from simdLoop_combines [OF this] unguarded loadS show ?thesis by blast
  qed
  have H: "tgt = local_id t \<and> tgt < src \<and> (tgt < src - tgt \<longrightarrow> src < G) \<and>
            (src < G \<longrightarrow> g * G + src < n \<and>
               Load src (g * G + src) \<in> set (reduceHybrid w n
                 \<lparr>local_id = src, global_id = g * G + src, local_size = G, group_id = g\<rparr>))"
    if "Combine tgt src \<in> set (reduceHybrid w n t)"
  proof -
    let ?a1 = "snd (hybridFenced w n (local_id t) (g * G + local_id t) (G div 2))"
    from that consider
        "Combine tgt src \<in> set (fst (hybridFenced w n (local_id t) (g * G + local_id t) (G div 2)))"
      | "Combine tgt src \<in> set (simdLoop n (local_id t) (g * G + local_id t) ?a1)"
      by (auto simp: reduceHybrid_unfold u split: if_splits)
    then show ?thesis
    proof cases
      case 1
      from hybridFenced_combines [OF 1] obtain b where
        b: "0 < b" "b \<le> G div 2" "local_id t < b" "u32_add (g * G + local_id t) b < n"
           "tgt = local_id t" "src = u32_add (local_id t) b" by blast
      from guarded [OF b] have gd: "tgt = local_id t \<and> tgt < src \<and> src < G \<and> g * G + src < n" .
      with loadH [of src] show ?thesis by simp
    next
      case 2
      from simdLoop_combines [OF 2] obtain b where
        b: "0 < b" "b \<le> ?a1" "u32_add (g * G + local_id t) b < n"
           "tgt = local_id t" "src = u32_add (local_id t) b" by blast
      from hybridFenced_exit_le [of w n "local_id t" "g * G + local_id t" "G div 2"] b(2)
      have "b \<le> G div 2" by simp
      from unguarded [OF b(1) this b(3-5)] loadH [of src] show ?thesis by blast
    qed
  qed
  from B S H show ?thesis by blast
qed

theorem combine_sources_witness:
  "valid_launch 8 4 2 \<and> (0::nat) < 2 \<and>
   \<lparr>local_id = 1, global_id = 1, local_size = 4, group_id = 0\<rparr> \<in> set (work_items 4 0) \<and>
   Combine 1 3 \<in> set (reduceBarrier 8 \<lparr>local_id = 1, global_id = 1, local_size = 4, group_id = 0\<rparr>) \<and>
   Load 3 3 \<in> set (reduceBarrier 8 \<lparr>local_id = 3, global_id = 3, local_size = 4, group_id = 0\<rparr>) \<and>
   Combine 1 3 \<in> set (reduceSimd 8 \<lparr>local_id = 1, global_id = 1, local_size = 4, group_id = 0\<rparr>) \<and>
   Load 3 3 \<in> set (reduceSimd 8 \<lparr>local_id = 3, global_id = 3, local_size = 4, group_id = 0\<rparr>) \<and>
   Combine 1 3 \<in> set (reduceHybrid 2 8 \<lparr>local_id = 1, global_id = 1, local_size = 4, group_id = 0\<rparr>) \<and>
   Load 3 3 \<in> set (reduceHybrid 2 8 \<lparr>local_id = 3, global_id = 3, local_size = 4, group_id = 0\<rparr>)"
proof -
  let ?t1 = "\<lparr>local_id = 1, global_id = 1, local_size = 4, group_id = 0\<rparr>"
  have v: "valid_launch 8 4 2" by (simp add: valid_launch_def)
  have g: "(0::nat) < 2" by simp
  have t: "?t1 \<in> set (work_items 4 0)" by (simp add: work_items_def)
  have cB: "Combine 1 3 \<in> set (reduceBarrier 8 ?t1)"
    by (simp add: reduceBarrier_def u32_def u32_add_def barrierLoop.simps)
  have cS: "Combine 1 3 \<in> set (reduceSimd 8 ?t1)"
    by (simp add: reduceSimd_def u32_def u32_add_def simdLoop.simps)
  have cH: "Combine 1 3 \<in> set (reduceHybrid 2 8 ?t1)"
    by (simp add: reduceHybrid_unfold u32_def u32_add_def simdLoop.simps hybridFenced.simps)
  from combine_sources [OF v g t, of 1 3 2] cB cS cH v g t show ?thesis by simp
qed

subsection \<open>C5: who writes the group's result\<close>

text \<open>
  Claim C5 says that in every reduction variant only the work-item with local index 0
  writes to \<^verbatim>\<open>results\<close>. In \<^verbatim>\<open>reduceSimd\<close> the final store has no guard: the
  work-item with local index 1 of a group of four stores as well.
\<close>

theorem single_writer_counterexample:
  "Store 0 \<in> set (reduceSimd 4 \<lparr>local_id = 1, global_id = 1, local_size = 4, group_id = 0\<rparr>)"
  by (simp add: reduceSimd_def u32_def u32_add_def simdLoop.simps)

text \<open>
  C5, amended: in \<^verbatim>\<open>reduceBarrier\<close> and in \<^verbatim>\<open>reduceHybrid\<close> (for a sub-group width
  of at least one) a work-item stores to \<^verbatim>\<open>results\<close> exactly when its local index is 0,
  and then into the slot of its own group; in \<^verbatim>\<open>reduceSimd\<close> every work-item stores into the
  slot of its own group, and into no other.
\<close>

theorem single_writer:
  assumes "local_id t < 2 ^ 32"
  shows "(Store g \<in> set (reduceBarrier n t) \<longleftrightarrow> local_id t = 0 \<and> g = group_id t) \<and>
         (Store g \<in> set (reduceHybrid w n t) \<longleftrightarrow> local_id t = 0 \<and> 0 < w \<and> g = group_id t) \<and>
         (Store g \<in> set (reduceSimd n t) \<longleftrightarrow> g = group_id t)"
  using assms by (rule store_issued)

theorem single_writer_witness:
  "Store 0 \<in> set (reduceBarrier 8 \<lparr>local_id = 0, global_id = 0, local_size = 8, group_id = 0\<rparr>) \<and>
   Store 0 \<notin> set (reduceBarrier 8 \<lparr>local_id = 3, global_id = 3, local_size = 8, group_id = 0\<rparr>) \<and>
   Store 0 \<notin> set (reduceHybrid 4 8 \<lparr>local_id = 3, global_id = 3, local_size = 8, group_id = 0\<rparr>) \<and>
   Store 0 \<in> set (reduceSimd 8 \<lparr>local_id = 3, global_id = 3, local_size = 8, group_id = 0\<rparr>)"
  using single_writer [of "\<lparr>local_id = 0, global_id = 0, local_size = 8, group_id = 0\<rparr>" 0 8 4]
    single_writer [of "\<lparr>local_id = 3, global_id = 3, local_size = 8, group_id = 0\<rparr>" 0 8 4]
  by simp

subsection \<open>C6: the load of \<^verbatim>\<open>reduceSimd\<close>\<close>

text \<open>
  Claim C6 says that the load of \<^verbatim>\<open>reduceSimd\<close> is not guarded, so that a work-item with
  global index at least \<^verbatim>\<open>inputLength\<close> loads. With \<^verbatim>\<open>inputLength = 5\<close>, the work-item
  with global index 5 issues no load at all: its first instruction slot is idle.
\<close>

theorem reduceSimd_load_counterexample:
  "reduceSimd 5 \<lparr>local_id = 1, global_id = 5, local_size = 4, group_id = 1\<rparr>
     = [Idle, Idle, Idle, Store 1]"
  by (simp add: reduceSimd_def u32_def u32_add_def simdLoop.simps)

text \<open>
  C6, amended: the first instruction of \<^verbatim>\<open>reduceSimd\<close> is the load guarded by
  \<^verbatim>\<open>globalIndex < inputLength\<close>, as in the other two variants, and a work-item loads
  (its own input element into its own slot) exactly when its global index is below
  \<^verbatim>\<open>inputLength\<close>.
\<close>

theorem reduceSimd_load_guarded:
  "hd (reduceSimd n t) =
     (if u32 (global_id t) < n then Load (u32 (local_id t)) (u32 (global_id t)) else Idle) \<and>
   (Load i j \<in> set (reduceSimd n t) \<longleftrightarrow>
      u32 (global_id t) < n \<and> i = u32 (local_id t) \<and> j = u32 (global_id t))"
  by (auto simp: reduceSimd_def Let_def dest: simdLoop_steps)

subsection \<open>C7: the two phases of \<^verbatim>\<open>reduceHybrid\<close>\<close>

text \<open>
  Claim C7. Every \<open>Combine\<close> of a work-item of \<^verbatim>\<open>reduceHybrid\<close> has the work-item's own
  slot as target and a higher slot as source, their distance being the value of
  \<^verbatim>\<open>activeThreadCount\<close> at that step. Wherever a combine stands in the instruction stream:
  if its active count exceeds the sub-group width, the next instruction is the barrier; and
  if the next instruction is not the barrier, its active count is at most the sub-group
  width and the work-item's local index is below that width. A work-item whose local index
  is at least the sub-group width issues the load, the barrier and the fenced loop, and
  nothing after it.
\<close>

theorem reduceHybrid_phases:
  assumes wf: "local_id t < local_size t" "local_size t \<le> 2 ^ 31"
  shows "(\<forall>pre tgt src post. reduceHybrid w n t = pre @ Combine tgt src # post \<longrightarrow>
            tgt = local_id t \<and> tgt < src \<and>
            (w < src - tgt \<longrightarrow> (\<exists>post'. post = Fence # post')) \<and>
            ((\<nexists>post'. post = Fence # post') \<longrightarrow> src - tgt \<le> w \<and> local_id t < w)) \<and>
         (w \<le> local_id t \<longrightarrow>
            reduceHybrid w n t =
              (if u32 (global_id t) < n then Load (local_id t) (u32 (global_id t)) else Idle)
              # Fence # fst (hybridFenced w n (local_id t) (u32 (global_id t)) (local_size t div 2)))"
proof (intro conjI allI impI)
  from wf have i: "u32 (local_id t) = local_id t" and a0: "u32 (local_size t div 2) = local_size t div 2"
    by (simp_all add: u32_id)
  have nowrap: "u32_add (local_id t) b = local_id t + b" if "b \<le> local_size t div 2" for b
    using that wf by (intro u32_add_id) simp
  {
    fix pre tgt src post
    assume dec: "reduceHybrid w n t = pre @ Combine tgt src # post"
    let ?F = "fst (hybridFenced w n (local_id t) (u32 (global_id t)) (local_size t div 2))"
    let ?a1 = "snd (hybridFenced w n (local_id t) (u32 (global_id t)) (local_size t div 2))"
    from hybrid_combine_cases [OF dec]
    consider (fenced) p q r where "?F = p @ Combine tgt src # q" "post = q @ r"
      | (unfenced) "local_id t < w"
          "Combine tgt src \<in> set (simdLoop n (local_id t) (u32 (global_id t)) ?a1)"
      by (auto simp: i a0)
    then have "tgt = local_id t \<and> tgt < src \<and>
            (w < src - tgt \<longrightarrow> (\<exists>post'. post = Fence # post')) \<and>
            ((\<nexists>post'. post = Fence # post') \<longrightarrow> src - tgt \<le> w \<and> local_id t < w)"
    proof cases
      case fenced
      from hybridFenced_fenced [OF fenced(1)] fenced(2)
      have f: "\<exists>post'. post = Fence # post'" by auto
      from fenced(1) have "Combine tgt src \<in> set ?F" by simp
      from hybridFenced_combines [OF this] obtain b where
        b: "0 < b" "b \<le> local_size t div 2" "tgt = local_id t" "src = u32_add (local_id t) b"
        by auto
      with nowrap [OF b(2)] f show ?thesis by simp
    next
      case unfenced
      from simdLoop_combines [OF unfenced(2)] obtain b where
        b: "0 < b" "b \<le> ?a1" "tgt = local_id t" "src = u32_add (local_id t) b"
        by auto
      from hybridFenced_exit_le [of w n "local_id t" "u32 (global_id t)" "local_size t div 2"]
      have "?a1 \<le> w" "?a1 \<le> local_size t div 2" by simp_all
      with b(2) have "b \<le> w" "b \<le> local_size t div 2" by simp_all
      with nowrap [OF this(2)] b unfenced(1) show ?thesis by simp
    qed
    then show "tgt = local_id t" "tgt < src"
      "w < src - tgt \<Longrightarrow> \<exists>post'. post = Fence # post'"
      "\<nexists>post'. post = Fence # post' \<Longrightarrow> src - tgt \<le> w"
      "\<nexists>post'. post = Fence # post' \<Longrightarrow> local_id t < w"
      by blast+
  }
  assume "w \<le> local_id t"
  then show "reduceHybrid w n t =
              (if u32 (global_id t) < n then Load (local_id t) (u32 (global_id t)) else Idle)
              # Fence # fst (hybridFenced w n (local_id t) (u32 (global_id t)) (local_size t div 2))"
    by (simp add: reduceHybrid_unfold i a0)
qed

theorem reduceHybrid_phases_witness:
  "reduceHybrid 2 16 \<lparr>local_id = 1, global_id = 1, local_size = 8, group_id = 0\<rparr>
     = [Load 1 1, Fence] @ Combine 1 5 # [Fence, Combine 1 3, Combine 1 2, Idle] \<and>
   (2::nat) < 5 - 1 \<and> (\<exists>post'. [Fence, Combine 1 3, Combine 1 2, Idle] = Fence # post') \<and>
   reduceHybrid 2 16 \<lparr>local_id = 1, global_id = 1, local_size = 8, group_id = 0\<rparr>
     = [Load 1 1, Fence, Combine 1 5, Fence] @ Combine 1 3 # [Combine 1 2, Idle] \<and>
   (\<nexists>post'. [Combine 1 2, Idle] = Fence # post') \<and> (3::nat) - 1 \<le> 2 \<and> (1::nat) < 2 \<and>
   reduceHybrid 2 16 \<lparr>local_id = 3, global_id = 3, local_size = 8, group_id = 0\<rparr>
     = [Load 3 3, Fence, Combine 3 7, Fence]"
proof -
  let ?t1 = "\<lparr>local_id = 1, global_id = 1, local_size = 8, group_id = 0\<rparr>"
  let ?t3 = "\<lparr>local_id = 3, global_id = 3, local_size = 8, group_id = 0\<rparr>"
  have tr1: "reduceHybrid 2 16 ?t1 = [Load 1 1, Fence, Combine 1 5, Fence, Combine 1 3, Combine 1 2, Idle]"
    by (simp add: reduceHybrid_unfold u32_def u32_add_def hybridFenced.simps simdLoop.simps)
  have fenced: "hybridFenced 2 16 3 3 4 = ([Combine 3 7, Fence], 2)"
    by (simp add: u32_add_def hybridFenced.simps)
  have wf: "local_id ?t1 < local_size ?t1" "local_size ?t1 \<le> 2 ^ 31"
    "local_id ?t3 < local_size ?t3" "local_size ?t3 \<le> 2 ^ 31" "2 \<le> local_id ?t3"
    by simp_all
  from reduceHybrid_phases [OF wf(1,2), of 2 16] tr1
  have "\<exists>post'. [Fence, Combine 1 3, Combine 1 2, Idle] = Fence # post'"
    and "(3::nat) - 1 \<le> 2 \<and> local_id ?t1 < 2"
    by simp_all
  moreover from reduceHybrid_phases [OF wf(3,4), of 2 16] wf(5) fenced
  have "reduceHybrid 2 16 ?t3 = [Load 3 3, Fence, Combine 3 7, Fence]"
    by (simp add: u32_def)
  ultimately show ?thesis using tr1 by simp
qed

subsection \<open>C8: an input length that is no multiple of the group size\<close>

text \<open>
  Claim C8 says, for every group size that does not divide \<^verbatim>\<open>inputLength\<close>, that each
  group's result is the sum of the valid elements of its tile. As for C1 this fails for a
  group size that is no power of two: five inputs and two groups of size 3 give 3 in slot 0,
  where the tile \<open>[1, 2, 3]\<close> sums to 6.
\<close>

theorem reduceBarrier_partial_tile_counterexample:
  "valid_launch 5 3 2 \<and> \<not> (3::nat) dvd 5 \<and>
   dispatch (reduceBarrier 5) [1, 2, 3, 4, 5 :: real] 3 2 [Undef, Undef] = [Val 3, Val 9] \<and>
   sum_list (tile [1, 2, 3, 4, 5 :: real] 5 3 0) = 6"
  by (simp add: valid_launch_def tile_def kernel_eval)

text \<open>
  C8, amended: let the group size be a power of two that does not divide \<^verbatim>\<open>inputLength\<close>,
  with one group for every started tile. Then every group's slot of \<^verbatim>\<open>results\<close> is the
  sum of the in-range elements of its tile, the tile of the last group consisting of the
  remaining \<open>inputLength mod G\<close> elements only, and a work-item whose global index is at
  least \<^verbatim>\<open>inputLength\<close> issues no load, no combine and no store. Scenario 2 is an instance:
  \<open>[1, 2, 3, 4, 5]\<close> with group size 8 gives \<open>[15]\<close>.
\<close>

theorem reduceBarrier_partial_tile:
  fixes input :: "'a::comm_monoid_add list"
  assumes v: "valid_launch n G numGroups" and G: "G = 2 ^ k" and n: "n \<le> length input"
      and nd: "\<not> G dvd n" and groups: "numGroups = n div G + 1" and len: "length res = numGroups"
  shows "dispatch (reduceBarrier n) input G numGroups res
           = map (\<lambda>g. Val (sum_list (tile input n G g))) [0..<numGroups] \<and>
         length (tile input n G (n div G)) = n mod G \<and>
         (\<forall>g<numGroups. \<forall>t \<in> set (work_items G g).
             n \<le> global_id t \<longrightarrow> set (reduceBarrier n t) \<subseteq> {Idle, Fence})"
proof (intro conjI allI impI ballI)
  from G have Gpos: "0 < G" by simp
  have ne: "g * G < n" if "g < numGroups" for g
  proof -
    from that groups have "g \<le> n div G" by linarith
    then have "g * G \<le> n div G * G" by (rule mult_le_mono1)
    moreover from nd have "n mod G \<noteq> 0" by (simp add: dvd_eq_mod_eq_0)
    then have "n div G * G < n" using div_mult_mod_eq [of n G] by linarith
    ultimately show ?thesis by (rule le_less_trans)
  qed
  show "dispatch (reduceBarrier n) input G numGroups res
           = map (\<lambda>g. Val (sum_list (tile input n G g))) [0..<numGroups]"
    by (rule dispatch_barrier_all [OF v G n ne len])
  have "n - n div G * G = n mod G" using div_mult_mod_eq [of n G] by linarith
  moreover from Gpos have "n mod G < G" by simp
  ultimately show "length (tile input n G (n div G)) = n mod G"
    by (simp add: length_tile [OF n] min_def)
  fix g t assume "g < numGroups" "t \<in> set (work_items G g)" "n \<le> global_id t"
  then show "set (reduceBarrier n t) \<subseteq> {Idle, Fence}"
    using beyond_input_idle [OF v _ _ _ ne] by blast
qed

theorem reduceBarrier_partial_tile_witness:
  "valid_launch 5 8 1 \<and> (8::nat) = 2 ^ 3 \<and> (5::nat) \<le> length [1, 2, 3, 4, 5 :: real] \<and>
   \<not> (8::nat) dvd 5 \<and> (1::nat) = 5 div 8 + 1 \<and> length [Undef :: real cell] = 1 \<and>
   dispatch (reduceBarrier 5) [1, 2, 3, 4, 5 :: real] 8 1 [Undef] = [Val 15] \<and>
   \<lparr>local_id = 6, global_id = 6, local_size = 8, group_id = 0\<rparr> \<in> set (work_items 8 0) \<and>
   set (reduceBarrier 5 \<lparr>local_id = 6, global_id = 6, local_size = 8, group_id = 0\<rparr>) \<subseteq> {Idle, Fence}"
proof -
  have v: "valid_launch 5 8 1" by (simp add: valid_launch_def)
  have h: "(8::nat) = 2 ^ 3" "(5::nat) \<le> length [1, 2, 3, 4, 5 :: real]"
    "\<not> (8::nat) dvd 5" "(1::nat) = 5 div 8 + 1" "length [Undef :: real cell] = 1"
    by simp_all
  have t: "\<lparr>local_id = 6, global_id = 6, local_size = 8, group_id = 0\<rparr> \<in> set (work_items 8 0)"
    by (simp add: work_items_def)
  from reduceBarrier_partial_tile [OF v h] t v show ?thesis
    by (simp add: tile_def)
qed

subsection \<open>C9: the capability probe\<close>

text \<open>
  Claim C9: in \<^verbatim>\<open>getSimdWidth\<close> the work-item with local index 0 writes the sub-group
  width into slot 0 of the buffer, and a work-item with any other local index leaves the
  buffer as it is; after a launch with a non-empty group, slot 0 holds the width.
\<close>

theorem getSimdWidth_probe:
  "(local_id t = 0 \<longrightarrow> getSimdWidth w t simdWidth = simdWidth[0 := w]) \<and>
   (local_id t \<noteq> 0 \<longrightarrow> getSimdWidth w t simdWidth = simdWidth) \<and>
   (0 < G \<and> simdWidth \<noteq> [] \<longrightarrow> probe_dispatch w G simdWidth ! 0 = w)"
proof (intro conjI impI)
  assume "0 < G \<and> simdWidth \<noteq> []"
  then have G: "0 < G" and ne: "simdWidth \<noteq> []" by auto
  from G have "work_items G 0 =
      \<lparr>local_id = 0, global_id = 0, local_size = G, group_id = 0\<rparr>
      # map (\<lambda>i. \<lparr>local_id = i, global_id = 0 * G + i, local_size = G, group_id = 0\<rparr>) [Suc 0..<G]"
    by (simp add: work_items_def upt_conv_Cons)
  then have "probe_dispatch w G simdWidth = simdWidth[0 := w]"
    by (simp add: probe_dispatch_def probe_others) (simp add: getSimdWidth_def)
  with ne show "probe_dispatch w G simdWidth ! 0 = w" by simp
qed (simp_all add: getSimdWidth_def)

theorem getSimdWidth_probe_witness:
  "getSimdWidth 32 \<lparr>local_id = 0, global_id = 0, local_size = 64, group_id = 0\<rparr> [0] = [32] \<and>
   getSimdWidth 32 \<lparr>local_id = 5, global_id = 5, local_size = 64, group_id = 0\<rparr> [0] = [0] \<and>
   probe_dispatch 32 64 [0] ! 0 = 32"
  using getSimdWidth_probe [of "\<lparr>local_id = 0, global_id = 0, local_size = 64, group_id = 0\<rparr>" 32 "[0]" 64]
    getSimdWidth_probe [of "\<lparr>local_id = 5, global_id = 5, local_size = 64, group_id = 0\<rparr>" 32 "[0]" 64]
  by simp

subsection \<open>C10: a group beyond the input\<close>

text \<open>
  Claim C10. Let all work-items of group \<open>g\<close> have a global index of at least
  \<^verbatim>\<open>inputLength\<close>. In each of the three kernels the work-item with local index 0 still
  issues the store into \<^verbatim>\<open>results[g]\<close>, no work-item of the group issues a load, none
  issues a combine into slot 0, and the group overwrites its slot of \<^verbatim>\<open>results\<close> with an
  indeterminate value.
\<close>

theorem empty_group_store:
  assumes v: "valid_launch n G numGroups" and g: "g < numGroups" and w: "0 < w"
      and out: "n \<le> g * G"
      and k: "krn = reduceBarrier n \<or> krn = reduceSimd n \<or> krn = reduceHybrid w n"
  shows "Store g \<in> set (krn \<lparr>local_id = 0, global_id = g * G, local_size = G, group_id = g\<rparr>) \<and>
         (\<forall>t \<in> set (work_items G g). \<forall>i j s.
             Load i j \<notin> set (krn t) \<and> Combine 0 s \<notin> set (krn t)) \<and>
         run_group krn input G res g = res[g := Undef]"
proof (intro conjI ballI allI)
  from v have G: "0 < G" by (simp add: valid_launch_def)
  let ?t0 = "\<lparr>local_id = 0, global_id = g * G, local_size = G, group_id = g\<rparr>"
  from k show "Store g \<in> set (krn ?t0)"
    using store_issued [of ?t0 g n w] w by auto
  from k out G show "run_group krn input G res g = res[g := Undef]"
    by (auto simp: run_group_reduceBarrier [OF v g] run_group_reduceSimd [OF v g]
        run_group_reduceHybrid [OF v g w] loaded_undef rounds_until_undef rd_def)
  fix t i j s
  assume t: "t \<in> set (work_items G g)"
  note c = work_item_coords [OF t] and u = work_item_u32 [OF v g t]
  from out have nl: "\<not> g * G + local_id t < n" by simp
  from k nl show "Load i j \<notin> set (krn t)"
    by (auto simp: reduceBarrier_def reduceSimd_def reduceHybrid_unfold Let_def u
        split: if_splits dest: barrierLoop_steps simdLoop_steps hybridFenced_steps)
  show "Combine 0 s \<notin> set (krn t)"
  proof
    assume cmb: "Combine 0 s \<in> set (krn t)"
    from k cmb consider
        "Combine 0 s \<in> set (barrierLoop n (local_id t) (g * G + local_id t) (G div 2))"
      | "Combine 0 s \<in> set (simdLoop n (local_id t) (g * G + local_id t) (G div 2))"
      | "Combine 0 s \<in> set (fst (hybridFenced w n (local_id t) (g * G + local_id t) (G div 2)))"
      | "Combine 0 s \<in> set (simdLoop n (local_id t) (g * G + local_id t) (fencedExit w (G div 2)))"
      by (auto simp: reduceBarrier_def reduceSimd_def reduceHybrid_unfold Let_def u hybridFenced_exit
          split: if_splits)
    then obtain b where b: "b \<le> G div 2" "u32_add (g * G + local_id t) b < n" "local_id t = 0"
    proof cases
      case 1
      from barrierLoop_combines [OF 1] that show ?thesis by metis
    next
      case 2
      from simdLoop_combines [OF 2] that show ?thesis by metis
    next
      case 3
      from hybridFenced_combines [OF 3] that show ?thesis by metis
    next
      case 4
      from simdLoop_combines [OF 4] obtain b where
        b: "b \<le> fencedExit w (G div 2)" "u32_add (g * G + local_id t) b < n" "local_id t = 0"
        by metis
      from hybridFenced_exit_le [of w n 0 0 "G div 2"] have "fencedExit w (G div 2) \<le> G div 2"
        by (simp add: hybridFenced_exit)
      with b that show ?thesis by (meson order_trans)
    qed
    from b(1,3) u(4) G have "u32_add (g * G + local_id t) b = g * G + b"
      by (intro u32_add_id [THEN trans]) simp_all
    with b(2) out show False by simp
  qed
qed

theorem empty_group_store_witness:
  "valid_launch 5 4 3 \<and> (2::nat) < 3 \<and> (0::nat) < 2 \<and> (5::nat) \<le> 2 * 4 \<and>
   Store 2 \<in> set (reduceBarrier 5 \<lparr>local_id = 0, global_id = 2 * 4, local_size = 4, group_id = 2\<rparr>) \<and>
   run_group (reduceBarrier 5) [1, 2, 3, 4, 5 :: real] 4 [Val 7, Val 7, Val 7] 2
     = [Val 7, Val 7, Undef] \<and>
   Store 2 \<in> set (reduceSimd 5 \<lparr>local_id = 0, global_id = 2 * 4, local_size = 4, group_id = 2\<rparr>) \<and>
   run_group (reduceSimd 5) [1, 2, 3, 4, 5 :: real] 4 [Val 7, Val 7, Val 7] 2
     = [Val 7, Val 7, Undef] \<and>
   Store 2 \<in> set (reduceHybrid 2 5 \<lparr>local_id = 0, global_id = 2 * 4, local_size = 4, group_id = 2\<rparr>) \<and>
   run_group (reduceHybrid 2 5) [1, 2, 3, 4, 5 :: real] 4 [Val 7, Val 7, Val 7] 2
     = [Val 7, Val 7, Undef]"
proof -
  have v: "valid_launch 5 4 3" by (simp add: valid_launch_def)
  have g: "(2::nat) < 3" and w: "(0::nat) < 2" and out: "(5::nat) \<le> 2 * 4" by simp_all
  from empty_group_store [OF v g w out, of "reduceBarrier 5" "[1, 2, 3, 4, 5 :: real]" "[Val 7, Val 7, Val 7]"]
    empty_group_store [OF v g w out, of "reduceSimd 5" "[1, 2, 3, 4, 5 :: real]" "[Val 7, Val 7, Val 7]"]
    empty_group_store [OF v g w out, of "reduceHybrid 2 5" "[1, 2, 3, 4, 5 :: real]" "[Val 7, Val 7, Val 7]"]
    v
  show ?thesis by simp
qed

end
